theory Spec2Isabelle
  imports Main "HOL-Library.Word" "HOL-Library.Multiset" "HOL-Library.Sublist"
begin

section \<open>The Windows port of the LevelDB environment (port/port\_win.cc)\<close>

text \<open>
  A shallow embedding of the file, lock, logger and background-queue classes of
  \<^verbatim>\<open>src/port/port_win.cc\<close>. The operating system and the C/C++ runtime are
  not part of the repository: each is modelled by the smallest state the code can observe
  (a stream's position and indicators, a stream buffer, a table of handles, a mutex owner),
  following ISO C and ISO C++ for what a library call does, and every failure the runtime
  can report is an explicit parameter of the call that can fail.
\<close>

subsection \<open>Status\<close>

text \<open>
  \<^verbatim>\<open>Status::OK()\<close> and \<^verbatim>\<open>Status::IOError(context, message)\<close>. The message
  is either a literal text or \<^verbatim>\<open>strerror(errno)\<close>, kept symbolic as the error number.
  The free function \<^verbatim>\<open>IOError(context, err_number)\<close> of the file is \<open>IOError\<close>.
\<close>

datatype message = Strerror nat | Text string
datatype Status = OK | Status_IOError string message

definition IOError :: "string \<Rightarrow> nat \<Rightarrow> Status" where
  "IOError context err_number = Status_IOError context (Strerror err_number)"


subsection \<open>\_WinSequentialFile\<close>

text \<open>
  The C stream behind a sequential file: the bytes of the file, the position indicator,
  the end-of-file and error indicators, and \<^verbatim>\<open>errno\<close>. A read fault
  \<open>Some (k, e)\<close> says that the device fails with error number \<open>e\<close> when the
  call fetches its byte number \<open>k\<close> (counted from 0); \<open>None\<close> is a healthy device.

  \<open>fgetc\<close> follows ISO C 7.21.7.1: with the end-of-file indicator set it returns
  EOF without touching the device; a failing device sets the error indicator; at the end
  of the file the end-of-file indicator is set. \<open>fread\<close> is \<open>n\<close> calls of \<open>fgetc\<close>,
  stopping at the first EOF (ISO C 7.21.8.1).
\<close>

record stdio =
  content :: string
  fpos :: nat
  eof_ind :: bool
  err_ind :: bool
  errno :: nat








definition fopen :: "string \<Rightarrow> stdio" where
  "fopen bytes = \<lparr>content = bytes, fpos = 0, eof_ind = False, err_ind = False, errno = 0\<rparr>"

text \<open>
  \<open>remaining\<close> is the number of bytes between the cursor and the end of the file.
  \<open>fires n flt f\<close>: the fault \<open>flt\<close> is reached by a read of \<open>n\<close> bytes from
  \<open>f\<close>, that is, the underlying read fails for a reason other than end-of-file.
  \<open>rlen\<close> is the number of bytes such a read delivers. \<open>stream_ok\<close> holds of every
  stream that was opened and then only read and seeked: the end-of-file indicator is set
  only at the end of the file.
\<close>

definition remaining :: "stdio \<Rightarrow> nat" where
  "remaining f = length (content f) - fpos f"



definition stream_ok :: "stdio \<Rightarrow> bool" where
  "stream_ok f = (eof_ind f \<longrightarrow> remaining f = 0)"

text \<open>
  \<^verbatim>\<open>fseek(file_, n, SEEK_CUR)\<close>: the offset parameter of \<open>fseek\<close> is a
  \<^verbatim>\<open>long\<close>, which is 32 bits wide on Windows, so the 64-bit \<open>n\<close> of \<open>Skip\<close>
  is converted to a 32-bit signed value at the call. A seek to a negative position fails
  with EINVAL (22); a seek fault \<open>Some e\<close> is a stream that cannot seek. A successful
  seek clears the end-of-file indicator.
\<close>

definition fseek_cur :: "32 word \<Rightarrow> nat option \<Rightarrow> stdio \<Rightarrow> int \<times> stdio" where
  "fseek_cur offset sflt f =
     (case sflt of
        Some e \<Rightarrow> (- 1, f\<lparr>errno := e\<rparr>)
      | None \<Rightarrow>
          let target = int (fpos f) + sint offset in
          if target < 0 then (- 1, f\<lparr>errno := 22\<rparr>)
          else (0, f\<lparr>fpos := nat target, eof_ind := False\<rparr>))"

definition Skip :: "64 word \<Rightarrow> nat option \<Rightarrow> string \<Rightarrow> stdio \<Rightarrow> Status \<times> stdio" where
  "Skip n sflt filename file =
     (case fseek_cur (ucast n) sflt file of (rc, file') \<Rightarrow>
        if rc \<noteq> 0 then (IOError filename (errno file'), file')
        else (OK, file'))"

subsection \<open>\_WinWritableFile\<close>

text \<open>
  The \<^verbatim>\<open>std::ofstream\<close> behind a writable file: whether it is open, whether its
  state is \<^verbatim>\<open>good()\<close>, the put area (bytes written by the program that the
  operating system has not received yet), the bytes the operating system has received,
  and the calls made to the operating system so far. \<open>Os_commit\<close> is the call that
  asks for the bytes to be forced to stable storage (\<^verbatim>\<open>FlushFileBuffers\<close>,
  \<^verbatim>\<open>_commit\<close>); the stream operations below never issue it.

  What the stream does in one call is a parameter \<open>io\<close> of the call: it succeeds,
  it fails and records the failure in its state, or it raises a \<^verbatim>\<open>std::exception\<close>
  with the given \<^verbatim>\<open>what()\<close> (as a stream with an exception mask does). A call
  that can raise returns \<open>Raises\<close> instead of \<open>Returns\<close>.
\<close>

datatype os_call = Os_open | Os_write string | Os_close | Os_commit

datatype io = Succeed | Fail | Throw string

datatype 'a result = Returns 'a | Raises string

record ofstream =
  is_open :: bool
  good :: bool
  put_area :: string
  os_file :: string
  os_calls :: "os_call list"

definition ofstream_open :: "bool \<Rightarrow> ofstream" where
  "ofstream_open opened =
     \<lparr>is_open = opened, good = opened, put_area = [], os_file = [], os_calls = [Os_open]\<rparr>"

definition drain :: "ofstream \<Rightarrow> ofstream" where
  "drain s =
     (if put_area s = [] then s
      else s\<lparr>os_file := os_file s @ put_area s, put_area := [],
             os_calls := os_calls s @ [Os_write (put_area s)]\<rparr>)"

definition ofstream_write :: "string \<Rightarrow> io \<Rightarrow> ofstream \<Rightarrow> unit result \<times> ofstream" where
  "ofstream_write bytes io s =
     (if \<not> good s then (Returns (), s)
      else case io of
        Succeed \<Rightarrow> (Returns (), s\<lparr>put_area := put_area s @ bytes\<rparr>)
      | Fail \<Rightarrow> (Returns (), s\<lparr>good := False\<rparr>)
      | Throw e \<Rightarrow> (Raises e, s\<lparr>good := False\<rparr>))"

definition ofstream_flush :: "io \<Rightarrow> ofstream \<Rightarrow> unit result \<times> ofstream" where
  "ofstream_flush io s =
     (case io of
        Succeed \<Rightarrow> (Returns (), if is_open s \<and> good s then drain s else s)
      | Fail \<Rightarrow> (Returns (), s\<lparr>good := False\<rparr>)
      | Throw e \<Rightarrow> (Raises e, s\<lparr>good := False\<rparr>))"

text \<open>
  \<^verbatim>\<open>basic_filebuf::close\<close> closes the file whether or not writing the put area
  fails or raises; closing a stream that is not open only sets \<^verbatim>\<open>failbit\<close>.
\<close>

definition ofstream_close :: "io \<Rightarrow> ofstream \<Rightarrow> unit result \<times> ofstream" where
  "ofstream_close io s =
     (if \<not> is_open s then (Returns (), s\<lparr>good := False\<rparr>)
      else case io of
        Succeed \<Rightarrow>
          (Returns (), (drain s)\<lparr>is_open := False, os_calls := os_calls (drain s) @ [Os_close]\<rparr>)
      | Fail \<Rightarrow>
          (Returns (), s\<lparr>is_open := False, good := False, put_area := [],
                          os_calls := os_calls s @ [Os_close]\<rparr>)
      | Throw e \<Rightarrow>
          (Raises e, s\<lparr>is_open := False, good := False, put_area := [],
                        os_calls := os_calls s @ [Os_close]\<rparr>))"

text \<open>
  The path of the file: \<^verbatim>\<open>string()\<close> is the path as stored,
  \<^verbatim>\<open>generic_string()\<close> has every backslash replaced by a slash.
\<close>

definition generic_string :: "string \<Rightarrow> string" where
  "generic_string p = map (\<lambda>c. if c = CHR 0x5C then CHR ''/'' else c) p"

record WritableFile =
  path :: string
  written :: "64 word"
  stream :: ofstream

text \<open>The constructor and \<^verbatim>\<open>Open\<close>: the stream is opened, truncating the file.\<close>

definition Open :: "bool \<Rightarrow> WritableFile \<Rightarrow> WritableFile" where
  "Open opened w = w\<lparr>stream := ofstream_open opened, written := 0\<rparr>"

definition WinWritableFile :: "string \<Rightarrow> bool \<Rightarrow> WritableFile" where
  "WinWritableFile p opened =
     Open opened \<lparr>path = p, written = 0, stream = ofstream_open False\<rparr>"

definition Append :: "string \<Rightarrow> io \<Rightarrow> WritableFile \<Rightarrow> Status result \<times> WritableFile" where
  "Append bytes io w =
     (case ofstream_write bytes io (stream w) of
        (Raises e, s) \<Rightarrow> (Raises e, w\<lparr>stream := s\<rparr>)
      | (Returns _, s) \<Rightarrow>
          if \<not> good s
          then (Returns (Status_IOError (generic_string (path w) @ '' Append'') (Text ''cannot write'')),
                w\<lparr>stream := s\<rparr>)
          else (Returns OK, w\<lparr>stream := s\<rparr>))"

definition Flush :: "io \<Rightarrow> WritableFile \<Rightarrow> Status result \<times> WritableFile" where
  "Flush io w =
     (case ofstream_flush io (stream w) of
        (Raises e, s) \<Rightarrow> (Raises e, w\<lparr>stream := s\<rparr>)
      | (Returns _, s) \<Rightarrow> (Returns OK, w\<lparr>stream := s\<rparr>))"

definition Sync :: "io \<Rightarrow> WritableFile \<Rightarrow> Status \<times> WritableFile" where
  "Sync io w =
     (case Flush io w of
        (Raises e, w') \<Rightarrow> (Status_IOError (path w @ '' sync'') (Text e), w')
      | (Returns _, w') \<Rightarrow> (OK, w'))"

text \<open>
  \<open>Close\<close> takes what the stream does in the flush of \<open>Sync\<close> and what it does in
  \<^verbatim>\<open>close()\<close>. The status of \<open>Sync\<close> is dropped, as in the source. The
  destructor calls \<open>Close\<close> and drops its status.
\<close>

definition Close :: "io \<Rightarrow> io \<Rightarrow> WritableFile \<Rightarrow> Status \<times> WritableFile" where
  "Close io_sync io_close w =
     (if is_open (stream w) then
        (case Sync io_sync w of (_, w1) \<Rightarrow>
           (case ofstream_close io_close (stream w1) of
              (Raises e, s) \<Rightarrow>
                (Status_IOError (generic_string (path w) @ '' close'') (Text e), w1\<lparr>stream := s\<rparr>)
            | (Returns _, s) \<Rightarrow> (OK, w1\<lparr>stream := s\<rparr>)))
      else (OK, w))"

definition destroy_WritableFile :: "io \<Rightarrow> io \<Rightarrow> WritableFile \<Rightarrow> WritableFile" where
  "destroy_WritableFile io_sync io_close w = snd (Close io_sync io_close w)"

subsection \<open>\_WinFileLock and UnlockFile\<close>

text \<open>
  A \<^verbatim>\<open>HANDLE\<close> is \<^verbatim>\<open>INVALID_HANDLE_VALUE\<close> or a handle of the operating
  system's table. \<open>handles\<close> maps every open handle to the file it holds open;
  \<open>CreateFile\<close> is called with share mode 0, so a file that is held open cannot be
  opened again. \<open>locks\<close> is the heap of \<^verbatim>\<open>_WinFileLock\<close> objects: it maps the
  address of every live object to its \<^verbatim>\<open>file_\<close> member. A
  \<^verbatim>\<open>FileLock*\<close> is \<open>None\<close> (the null pointer) or an address.

  \<^verbatim>\<open>delete\<close> of a pointer to an object that has already been deleted has no defined
  behaviour in C++; the model returns \<open>Undefined\<close> there.
\<close>

datatype HANDLE = INVALID_HANDLE_VALUE | Handle nat

datatype 'a behaviour = Defined 'a | Undefined

record lock_env =
  handles :: "nat \<rightharpoonup> string"
  next_handle :: nat
  locks :: "nat \<rightharpoonup> HANDLE"
  next_addr :: nat

definition lock_env0 :: lock_env where
  "lock_env0 = \<lparr>handles = Map.empty, next_handle = 0, locks = Map.empty, next_addr = 0\<rparr>"

definition held :: "string \<Rightarrow> lock_env \<Rightarrow> bool" where
  "held fname s = (\<exists>h < next_handle s. handles s h = Some fname)"

definition CreateFile :: "string \<Rightarrow> bool \<Rightarrow> lock_env \<Rightarrow> HANDLE \<times> lock_env" where
  "CreateFile fname permitted s =
     (if \<not> permitted \<or> held fname s then (INVALID_HANDLE_VALUE, s)
      else (Handle (next_handle s),
            s\<lparr>handles := (handles s)(next_handle s \<mapsto> fname),
               next_handle := next_handle s + 1\<rparr>))"

definition CloseHandle :: "nat \<Rightarrow> lock_env \<Rightarrow> lock_env" where
  "CloseHandle h s = s\<lparr>handles := (handles s)(h := None)\<rparr>"

text \<open>The destructor of \<^verbatim>\<open>_WinFileLock\<close>, run on the member \<^verbatim>\<open>file_\<close>.\<close>

definition destroy_WinFileLock :: "HANDLE \<Rightarrow> lock_env \<Rightarrow> lock_env" where
  "destroy_WinFileLock file s =
     (case file of INVALID_HANDLE_VALUE \<Rightarrow> s | Handle h \<Rightarrow> CloseHandle h s)"

definition delete_lock :: "nat \<Rightarrow> lock_env \<Rightarrow> lock_env behaviour" where
  "delete_lock a s =
     (case locks s a of
        None \<Rightarrow> Undefined
      | Some file \<Rightarrow> Defined ((destroy_WinFileLock file s)\<lparr>locks := (locks s)(a := None)\<rparr>))"

text \<open>
  \<open>LockFile\<close>: \<open>permitted\<close> says whether the operating system lets the file be
  created, \<open>errmsg\<close> is the result of \<^verbatim>\<open>_GetWindowErrorMessage\<close>.
\<close>

definition LockFile ::
    "string \<Rightarrow> bool \<Rightarrow> string option \<Rightarrow> lock_env \<Rightarrow> Status \<times> nat option \<times> lock_env" where
  "LockFile fname permitted errmsg s =
     (case CreateFile fname permitted s of
        (INVALID_HANDLE_VALUE, s') \<Rightarrow>
          (case errmsg of
             Some m \<Rightarrow> (Status_IOError (''lock '' @ fname) (Text m), None, s')
           | None \<Rightarrow> (Status_IOError (''acquiring lock '' @ fname @ '' failed'') (Text []), None, s'))
      | (Handle h, s') \<Rightarrow>
          (OK, Some (next_addr s'),
           s'\<lparr>locks := (locks s')(next_addr s' \<mapsto> Handle h), next_addr := next_addr s' + 1\<rparr>))"

definition UnlockFile :: "nat option \<Rightarrow> lock_env \<Rightarrow> (Status \<times> lock_env) behaviour" where
  "UnlockFile lock s =
     (case lock of
        None \<Rightarrow> Defined (OK, s)
      | Some a \<Rightarrow>
          (case delete_lock a s of
             Undefined \<Rightarrow> Undefined
           | Defined s' \<Rightarrow> Defined (OK, s')))"

text \<open>A lock pointer is live when it points to an object that has not been deleted.\<close>

definition live :: "nat option \<Rightarrow> lock_env \<Rightarrow> bool" where
  "live lock s = (case lock of None \<Rightarrow> False | Some a \<Rightarrow> locks s a \<noteq> None)"

subsection \<open>StartThread\<close>

text \<open>
  A \<^verbatim>\<open>std::thread\<close> object is joinable from the moment its constructor has started
  the thread until it is joined or detached. Its destructor calls
  \<^verbatim>\<open>std::terminate\<close> when the object is still joinable (ISO C++ [thread.thread.destr]).
  The constructor raises \<^verbatim>\<open>std::system_error\<close> when the thread cannot be
  started. A function pointer and its argument are addresses; \<open>running\<close> lists the
  threads the process has started, each with the call it runs.
\<close>

type_synonym call = "nat \<times> nat"

record std_thread =
  joinable :: bool

record process =
  running :: "call list"

datatype outcome = Returned process | Terminated | Raised string

definition thread_ctor :: "call \<Rightarrow> bool \<Rightarrow> process \<Rightarrow> std_thread result \<times> process" where
  "thread_ctor c started p =
     (if started then (Returns \<lparr>joinable = True\<rparr>, p\<lparr>running := running p @ [c]\<rparr>)
      else (Raises ''system_error'', p))"

definition thread_dtor :: "std_thread \<Rightarrow> process \<Rightarrow> outcome" where
  "thread_dtor t p = (if joinable t then Terminated else Returned p)"

text \<open>
  \<open>StartThread\<close> constructs the local \<^verbatim>\<open>std::thread t\<close> and returns; leaving the
  function runs the destructor of \<open>t\<close>, which was neither joined nor detached.
\<close>

definition StartThread :: "nat \<Rightarrow> nat \<Rightarrow> bool \<Rightarrow> process \<Rightarrow> outcome" where
  "StartThread function arg started p =
     (case thread_ctor (function, arg) started p of
        (Raises e, p') \<Rightarrow> Raised e
      | (Returns t, p') \<Rightarrow> thread_dtor t p')"

subsection \<open>CreateDir\<close>

text \<open>
  The file system as \<^verbatim>\<open>std::experimental::filesystem\<close> sees it: a path is the list
  of its elements (the empty list is the empty path), \<open>nodes\<close> maps every path that
  exists to a directory or a file, and \<open>mkdir_calls\<close> records every attempt to create a
  directory. \<open>oserr p\<close> is the error, if any, with which the operating system refuses to
  create \<open>p\<close>, and \<open>staterr p\<close> the error, if any, with which it refuses to report the
  status of \<open>p\<close> (a directory on the way to \<open>p\<close> that may not be searched, for
  one).

  The overloads of \<^verbatim>\<open>exists\<close> and \<^verbatim>\<open>is_directory\<close> that take no
  \<^verbatim>\<open>error_code\<close> raise \<^verbatim>\<open>filesystem_error\<close> when the status is refused
  (\<open>fs_exists\<close>, \<open>fs_is_directory\<close>); \<open>exists_path\<close> and \<open>is_directory\<close> are
  what they return otherwise. \<^verbatim>\<open>create_directories\<close> with an \<^verbatim>\<open>error_code\<close>
  reports a refused status in the \<^verbatim>\<open>error_code\<close>.

  \<open>create_directories\<close> is given the path in reverse (last element first), so that its
  recursion on the parent path is structural: an empty path gives \<open>false\<close> without an
  error; a path that does not exist has its parent created first and then itself; a path
  that is a directory gives \<open>false\<close> without an error; any other existing path is an
  error. It returns whether a directory was created, the error code, and the file system.
\<close>

datatype node = Dir | File














subsection \<open>\_WinLogger\<close>

text \<open>
  \<^verbatim>\<open>SYSTEMTIME\<close> has 16-bit fields; a thread id is a 32-bit \<^verbatim>\<open>DWORD\<close>, widened
  to 64 bits before it is printed. \<open>dec\<close> and \<open>hex\<close> print a number in decimal and in
  lower-case hexadecimal; \<open>fmt_d w\<close> is the conversion \<^verbatim>\<open>%0wd\<close> of a number that is
  not negative. \<open>header\<close> is the text the format
  \<^verbatim>\<open>"%04d/%02d/%02d-%02d:%02d:%02d.%03d %llx "\<close> produces.
\<close>

record SYSTEMTIME =
  wYear :: "16 word"
  wMonth :: "16 word"
  wDay :: "16 word"
  wHour :: "16 word"
  wMinute :: "16 word"
  wSecond :: "16 word"
  wMilliseconds :: "16 word"

definition digit :: "nat \<Rightarrow> char" where
  "digit d = ''0123456789abcdef'' ! d"

fun dec :: "nat \<Rightarrow> string" where
  "dec n = (if n < 10 then [digit n] else dec (n div 10) @ [digit (n mod 10)])"

fun hex :: "nat \<Rightarrow> string" where
  "hex n = (if n < 16 then [digit n] else hex (n div 16) @ [digit (n mod 16)])"

definition fmt_d :: "nat \<Rightarrow> nat \<Rightarrow> string" where
  "fmt_d w n = replicate (w - length (dec n)) CHR ''0'' @ dec n"

definition header :: "SYSTEMTIME \<Rightarrow> 32 word \<Rightarrow> string" where
  "header st tid =
     fmt_d 4 (unat (wYear st)) @ ''/'' @ fmt_d 2 (unat (wMonth st)) @ ''/'' @
     fmt_d 2 (unat (wDay st)) @ ''-'' @ fmt_d 2 (unat (wHour st)) @ '':'' @
     fmt_d 2 (unat (wMinute st)) @ '':'' @ fmt_d 2 (unat (wSecond st)) @ ''.'' @
     fmt_d 3 (unat (wMilliseconds st)) @ '' '' @
     hex (unat (ucast tid :: 64 word)) @ '' ''"

text \<open>
  Reading a printed number back. \<open>digit_value\<close> is the value of a digit (16 for a
  character that is not a digit) and \<open>number b s\<close> the number that the text \<open>s\<close>
  denotes in base \<open>b\<close>. The text \<open>s\<close> is the conversion of \<open>n\<close> in base \<open>b\<close> with
  minimum width \<open>w\<close> and zero padding when it consists of digits of the base, denotes
  \<open>n\<close>, has at least \<open>w\<close> characters, and has more than \<open>w\<close> only without a zero
  in front: \<^verbatim>\<open>%04d\<close> is base 10 and width 4, \<^verbatim>\<open>%llx\<close> is base 16 and width 1
  (with lower-case digits).
\<close>

definition digit_value :: "char \<Rightarrow> nat" where
  "digit_value c = length (takeWhile (\<lambda>d. d \<noteq> c) ''0123456789abcdef'')"

definition number :: "nat \<Rightarrow> string \<Rightarrow> nat" where
  "number b s = foldl (\<lambda>a c. b * a + digit_value c) 0 s"

definition conversion :: "nat \<Rightarrow> nat \<Rightarrow> string \<Rightarrow> nat \<Rightarrow> bool" where
  "conversion b w s n =
     ((\<forall>c \<in> set s. digit_value c < b) \<and> number b s = n \<and> w \<le> length s \<and>
      (w < length s \<longrightarrow> hd s \<noteq> CHR ''0''))"

text \<open>
  The two formatting calls, on a text that is already formatted. Both store at most
  \<open>sz - 1\<close> characters (and a terminating zero, which the model leaves out).
  \<^verbatim>\<open>_snprintf_s\<close> with \<^verbatim>\<open>_TRUNCATE\<close> returns \<open>-1\<close> when the text does not fit;
  \<^verbatim>\<open>vsnprintf\<close> returns the length of the whole text.
\<close>

definition snprintf_s_TRUNCATE :: "nat \<Rightarrow> string \<Rightarrow> string \<times> int" where
  "snprintf_s_TRUNCATE sz s =
     (if length s < sz then (s, int (length s)) else (take (sz - 1) s, - 1))"

definition vsnprintf :: "nat \<Rightarrow> string \<Rightarrow> string \<times> int" where
  "vsnprintf sz s = (take (sz - 1) s, int (length s))"

definition newline :: char where
  "newline = CHR 0x0A"

text \<open>
  One iteration of the loop of \<open>Logv\<close>, for a buffer of \<open>bufsize\<close> characters; \<open>p\<close>
  is the offset of the pointer \<^verbatim>\<open>p\<close> from \<^verbatim>\<open>base\<close> and \<open>buf\<close> the characters
  stored so far. The iteration asks for another one with a larger buffer (\<open>Retry\<close>),
  or passes a line to \<^verbatim>\<open>fwrite\<close> (\<open>Line\<close>). \<open>Overrun\<close> stands for a pointer that
  leaves the buffer: \<open>p\<close> before \<^verbatim>\<open>base\<close>, or the assertion \<^verbatim>\<open>p <= limit\<close> failing.
\<close>

datatype attempt = Retry | Line string | Overrun

definition Logv_attempt :: "nat \<Rightarrow> nat \<Rightarrow> string \<Rightarrow> string \<Rightarrow> attempt" where
  "Logv_attempt iter bufsize hdr msg =
     (let limit = int bufsize;
          (buf1, r1) = snprintf_s_TRUNCATE bufsize hdr;
          p1 = 0 + r1
      in if p1 < 0 then Overrun
         else
           let (buf2, p2) =
                 (if p1 < limit then
                    (case vsnprintf (nat (limit - p1)) msg of
                       (w, r) \<Rightarrow> (take (nat p1) buf1 @ w, p1 + r))
                  else (buf1, p1))
           in if p2 \<ge> limit \<and> iter = 0 then Retry
              else
                let p3 = (if p2 \<ge> limit then limit - 1 else p2);
                    (buf4, p4) =
                      (if p3 = 0 \<or> buf2 ! nat (p3 - 1) \<noteq> newline
                       then (take (nat p3) buf2 @ [newline], p3 + 1)
                       else (buf2, p3))
                in if p4 \<le> limit then Line (take (nat p4) buf4) else Overrun)"

text \<open>
  The log stream: what \<^verbatim>\<open>fwrite\<close> has stored in the stream's buffer, what has been
  written to the file, and the number of \<^verbatim>\<open>fflush\<close> calls.
\<close>

record log_file =
  pending :: string
  on_disk :: string
  flushes :: nat

definition fwrite :: "string \<Rightarrow> log_file \<Rightarrow> log_file" where
  "fwrite s f = f\<lparr>pending := pending f @ s\<rparr>"

definition fflush :: "log_file \<Rightarrow> log_file" where
  "fflush f = f\<lparr>on_disk := on_disk f @ pending f, pending := [], flushes := flushes f + 1\<rparr>"

text \<open>
  \<open>Logv\<close>: \<open>st0\<close> and \<open>st1\<close> are the local times \<^verbatim>\<open>GetLocalTime\<close> returns in the
  first and in the second iteration, \<open>tid\<close> the calling thread's id and \<open>msg\<close> the
  message as \<^verbatim>\<open>format\<close> and \<^verbatim>\<open>ap\<close> print it. The result is \<open>None\<close> when an
  iteration overruns its buffer.
\<close>

definition Logv :: "SYSTEMTIME \<Rightarrow> SYSTEMTIME \<Rightarrow> 32 word \<Rightarrow> string \<Rightarrow> log_file \<Rightarrow> log_file option" where
  "Logv st0 st1 tid msg f =
     (case Logv_attempt 0 500 (header st0 tid) msg of
        Line l \<Rightarrow> Some (fflush (fwrite l f))
      | Overrun \<Rightarrow> None
      | Retry \<Rightarrow>
          (case Logv_attempt 1 30000 (header st1 tid) msg of
             Line l \<Rightarrow> Some (fflush (fwrite l f))
           | Overrun \<Rightarrow> None
           | Retry \<Rightarrow> None))"

text \<open>A text with a newline added unless it already ends with one.\<close>

definition terminated :: "string \<Rightarrow> string" where
  "terminated s = (if s = [] \<or> last s \<noteq> newline then s @ [newline] else s)"

subsection \<open>Schedule and BGThread\<close>

text \<open>
  The background queue is modelled as an interleaving of threads over the shared members
  of \<^verbatim>\<open>_WinEnv\<close>. A task is the call \<^verbatim>\<open>std::bind(function, arg)\<close>. Each
  thread has a control point, named after the statement it executes next.

  In \<open>Schedule\<close>: \<open>S_lock\<close> is the construction of the \<^verbatim>\<open>unique_lock\<close> (it
  waits until \<^verbatim>\<open>mu_\<close> is free), \<open>S_test\<close> the test of \<^verbatim>\<open>bgthread_\<close>,
  \<open>S_spawn\<close> the creation of the thread, \<open>S_push\<close> the \<^verbatim>\<open>push_back\<close>,
  \<open>S_unlock\<close> the \<^verbatim>\<open>lock.unlock()\<close> and \<open>S_notify\<close> the
  \<^verbatim>\<open>notify_one()\<close>.

  In \<open>BGThread\<close>: \<open>B_lock\<close> is the construction of the \<^verbatim>\<open>unique_lock\<close>, and
  also the return from \<^verbatim>\<open>wait\<close>, which takes the mutex again before the loop
  tests the queue; \<open>B_test\<close> is the test \<^verbatim>\<open>queue_.empty()\<close>; \<open>B_wait\<close> is
  the thread blocked in \<^verbatim>\<open>bgsignal_.wait(lock)\<close> with the mutex released;
  \<open>B_front\<close> is \<^verbatim>\<open>front()\<close> with \<^verbatim>\<open>pop_front()\<close>; \<open>B_unlock f\<close> the
  \<^verbatim>\<open>lock.unlock()\<close> with the task \<open>f\<close> taken, and \<open>B_call f\<close> the call of \<open>f\<close>.

  The creation of the thread can fail: the constructor of \<^verbatim>\<open>std::thread\<close> raises
  \<^verbatim>\<open>std::system_error\<close> when the operating system does not start the thread, as in
  \<open>thread_ctor\<close> above. Exhaustion of memory (\<^verbatim>\<open>std::bad_alloc\<close>) is not modelled
  here, as elsewhere in this development.

  A thread is the thread started by \<open>Schedule\<close> while it executes the loop of
  \<open>BGThread\<close> (\<open>Worker\<close>); or it executes code that may call \<open>Schedule\<close>
  (\<open>Thread\<close>): code of the engine on a thread of the engine (\<open>Engine\<close>), or the
  task \<open>f\<close> that \<open>BGThread\<close> has called (\<open>Task f\<close>). Such a thread is outside
  \<open>Schedule\<close> (\<open>None\<close>) or in a call \<open>Schedule(t)\<close> at a control point.
\<close>

type_synonym task = "nat \<times> nat"

datatype sched_pc = S_lock | S_test | S_spawn | S_push | S_unlock | S_notify

datatype bg_pc = B_lock | B_test | B_wait | B_front | B_unlock task | B_call task

datatype owner = Engine | Task task

datatype thread =
    Thread owner "(task \<times> sched_pc) option"
  | Worker bg_pc

text \<open>
  The members \<^verbatim>\<open>mu_\<close> (its owner, if locked), \<^verbatim>\<open>bgthread_\<close> (the thread it
  owns, if any) and \<^verbatim>\<open>queue_\<close>; the threads of the process; and a history that the
  program does not keep: the tasks in the order \<open>Schedule\<close> was called with them, in the
  order they were appended and in the order they were called by \<open>BGThread\<close>, the number
  of threads created, the tasks whose \<open>Schedule\<close> call has signalled and returned,
  and the tasks whose \<open>Schedule\<close> call was left by an exception.
\<close>

record env =
  mu :: "nat option"
  bgthread :: "nat option"
  queue :: "task list"
  threads :: "thread list"
  requested :: "task list"
  appended :: "task list"
  executed :: "task list"
  spawned :: nat
  signalled :: "task list"
  failed :: "task list"

definition init :: "nat \<Rightarrow> env" where
  "init k =
     \<lparr>mu = None, bgthread = None, queue = [], threads = replicate k (Thread Engine None),
      requested = [], appended = [], executed = [], spawned = 0, signalled = [],
      failed = []\<rparr>"

text \<open>
  \<^verbatim>\<open>notify_one\<close> wakes one thread that waits on the condition variable, if there is
  one: the first of the list.
\<close>

fun wake_first :: "thread list \<Rightarrow> thread list" where
  "wake_first [] = []"
| "wake_first (th # ths) =
     (if th = Worker B_wait then Worker B_lock # ths else th # wake_first ths)"

definition set_thread :: "nat \<Rightarrow> thread \<Rightarrow> env \<Rightarrow> env" where
  "set_thread i th s = s\<lparr>threads := (threads s)[i := th]\<rparr>"

text \<open>
  One statement of \<open>Schedule(t)\<close> executed by thread \<open>i\<close>, which runs code of
  \<open>x\<close>; after \<open>S_notify\<close> the call has returned. The result is \<open>None\<close> when
  the thread cannot move: \<open>S_lock\<close> while the mutex is taken.

  \<open>started\<close> says whether the operating system starts the thread that \<open>S_spawn\<close>
  asks for. When it does not, the constructor of the thread raises
  \<^verbatim>\<open>std::system_error\<close>: \<^verbatim>\<open>make_unique\<close> has not returned, so \<^verbatim>\<open>bgthread_\<close>
  stays empty and no thread runs \<open>BGThread\<close>; the exception leaves \<open>Schedule\<close>, and
  on its way the destructor of \<^verbatim>\<open>lock\<close> releases the mutex. \<^verbatim>\<open>push_back\<close> and
  \<^verbatim>\<open>notify_one\<close> are not reached, and the task is not queued. The caller, which has the
  exception in hand, is outside \<open>Schedule\<close> again.
\<close>

fun sched_step ::
    "nat \<Rightarrow> owner \<Rightarrow> task \<Rightarrow> sched_pc \<Rightarrow> bool \<Rightarrow> env \<Rightarrow> env option" where
  "sched_step i x t S_lock started s =
     (if mu s = None then Some (set_thread i (Thread x (Some (t, S_test))) (s\<lparr>mu := Some i\<rparr>)) else None)"
| "sched_step i x t S_test started s =
     Some (set_thread i (Thread x (Some (t, if bgthread s = None then S_spawn else S_push))) s)"
| "sched_step i x t S_spawn started s =
     (if started then
        Some (set_thread i (Thread x (Some (t, S_push)))
          (s\<lparr>bgthread := Some (length (threads s)), threads := threads s @ [Worker B_lock],
             spawned := spawned s + 1\<rparr>))
      else
        Some (set_thread i (Thread x None) (s\<lparr>mu := None, failed := failed s @ [t]\<rparr>)))"
| "sched_step i x t S_push started s =
     Some (set_thread i (Thread x (Some (t, S_unlock)))
       (s\<lparr>queue := queue s @ [t], appended := appended s @ [t]\<rparr>))"
| "sched_step i x t S_unlock started s =
     Some (set_thread i (Thread x (Some (t, S_notify))) (s\<lparr>mu := None\<rparr>))"
| "sched_step i x t S_notify started s =
     Some (set_thread i (Thread x None)
       (s\<lparr>threads := wake_first (threads s), signalled := signalled s @ [t]\<rparr>))"

text \<open>
  One statement of \<open>BGThread\<close> executed by thread \<open>i\<close>. \<open>B_lock\<close> cannot move
  while the mutex is taken, \<open>B_wait\<close> cannot move at all (it is moved by
  \<^verbatim>\<open>notify_one\<close> or by a spurious wake-up), and \<open>B_front\<close> has no behaviour on an
  empty queue.
\<close>

fun bg_step :: "nat \<Rightarrow> bg_pc \<Rightarrow> env \<Rightarrow> env option" where
  "bg_step i B_lock s =
     (if mu s = None then Some (set_thread i (Worker B_test) (s\<lparr>mu := Some i\<rparr>)) else None)"
| "bg_step i B_test s =
     (if queue s = [] then Some (set_thread i (Worker B_wait) (s\<lparr>mu := None\<rparr>))
      else Some (set_thread i (Worker B_front) s))"
| "bg_step i B_wait s = None"
| "bg_step i B_front s =
     (case queue s of
        [] \<Rightarrow> None
      | f # q \<Rightarrow> Some (set_thread i (Worker (B_unlock f)) (s\<lparr>queue := q\<rparr>)))"
| "bg_step i (B_unlock f) s = Some (set_thread i (Worker (B_call f)) (s\<lparr>mu := None\<rparr>))"
| "bg_step i (B_call f) s =
     Some (set_thread i (Thread (Task f) None) (s\<lparr>executed := executed s @ [f]\<rparr>))"

text \<open>
  The next statement of thread \<open>i\<close>, with the thread it asks for started. A task that
  is not inside \<open>Schedule\<close> returns, and \<open>BGThread\<close> starts its loop again.
\<close>

fun thread_step :: "nat \<Rightarrow> thread \<Rightarrow> env \<Rightarrow> env option" where
  "thread_step i (Thread Engine None) s = None"
| "thread_step i (Thread (Task f) None) s = Some (set_thread i (Worker B_lock) s)"
| "thread_step i (Thread x (Some (t, pc))) s = sched_step i x t pc True s"
| "thread_step i (Worker pc) s = bg_step i pc s"

definition step :: "nat \<Rightarrow> env \<Rightarrow> env option" where
  "step i s = (if i < length (threads s) then thread_step i (threads s ! i) s else None)"

text \<open>
  The creation of the thread by thread \<open>i\<close>, with the thread not started: possible
  only for a thread that is at \<open>S_spawn\<close>.
\<close>

fun thread_throw :: "nat \<Rightarrow> thread \<Rightarrow> env \<Rightarrow> env option" where
  "thread_throw i (Thread x (Some (t, S_spawn))) s = sched_step i x t S_spawn False s"
| "thread_throw i th s = None"

text \<open>
  What can happen: thread \<open>i\<close> calls \<open>Schedule(t)\<close> (from the engine, or from inside
  a task), thread \<open>i\<close> executes its next statement with success, thread \<open>i\<close> wakes up
  in \<^verbatim>\<open>wait\<close> without a notification (which \<^verbatim>\<open>std::condition_variable\<close>
  permits), or the operating system refuses the thread that thread \<open>i\<close> is about to create.
\<close>

datatype action = Call nat task | Step nat | Spurious nat | Refuse nat

fun enter :: "task \<Rightarrow> thread \<Rightarrow> thread option" where
  "enter t (Thread x None) = Some (Thread x (Some (t, S_lock)))"
| "enter t th = None"

fun act :: "action \<Rightarrow> env \<Rightarrow> env option" where
  "act (Call i t) s =
     (if i < length (threads s) then
        (case enter t (threads s ! i) of
           None \<Rightarrow> None
         | Some th \<Rightarrow> Some (set_thread i th (s\<lparr>requested := requested s @ [t]\<rparr>)))
      else None)"
| "act (Step i) s = step i s"
| "act (Spurious i) s =
     (if i < length (threads s) \<and> threads s ! i = Worker B_wait
      then Some (set_thread i (Worker B_lock) s) else None)"
| "act (Refuse i) s =
     (if i < length (threads s) then thread_throw i (threads s ! i) s else None)"

fun run :: "action list \<Rightarrow> env \<Rightarrow> env option" where
  "run [] s = Some s"
| "run (a # as) s = (case act a s of None \<Rightarrow> None | Some s' \<Rightarrow> run as s')"

text \<open>
  The control point of a thread in \<open>Schedule\<close>, if it is in a call; whether it holds
  the mutex; whether it is the background thread; the task the background thread has
  taken from the queue and not called yet.
\<close>

fun sched_of :: "thread \<Rightarrow> (task \<times> sched_pc) option" where
  "sched_of (Thread x c) = c"
| "sched_of (Worker pc) = None"

fun in_critical :: "sched_pc \<Rightarrow> bool" where
  "in_critical S_lock = False"
| "in_critical S_notify = False"
| "in_critical pc = True"

fun holds :: "thread \<Rightarrow> bool" where
  "holds (Worker B_test) = True"
| "holds (Worker B_front) = True"
| "holds (Worker (B_unlock f)) = True"
| "holds (Worker pc) = False"
| "holds (Thread x None) = False"
| "holds (Thread x (Some (t, pc))) = in_critical pc"

fun is_bg :: "thread \<Rightarrow> bool" where
  "is_bg (Thread Engine c) = False"
| "is_bg th = True"

fun is_running :: "thread \<Rightarrow> bool" where
  "is_running (Thread (Task f) c) = True"
| "is_running th = False"

fun taken :: "thread \<Rightarrow> task list" where
  "taken (Worker (B_unlock f)) = [f]"
| "taken (Worker (B_call f)) = [f]"
| "taken th = []"

definition in_flight :: "env \<Rightarrow> task list" where
  "in_flight s = (case bgthread s of None \<Rightarrow> [] | Some w \<Rightarrow> taken (threads s ! w))"

text \<open>
  The tasks of the calls of \<open>Schedule\<close> that have not appended their task yet, and
  the state in which no thread can execute a statement.
\<close>

fun unappended :: "thread \<Rightarrow> task multiset" where
  "unappended th =
     (case sched_of th of
        None \<Rightarrow> {#}
      | Some (t, pc) \<Rightarrow> if pc = S_unlock \<or> pc = S_notify then {#} else {#t#})"

definition quiescent :: "env \<Rightarrow> bool" where
  "quiescent s = (\<forall>i < length (threads s). step i s = None)"

text \<open>
  A bound on the statements the threads can still execute when no further call of
  \<open>Schedule\<close> and no spurious wake-up happens: every statement lowers it.
\<close>

fun sched_weight :: "sched_pc \<Rightarrow> nat" where
  "sched_weight S_lock = 18"
| "sched_weight S_test = 17"
| "sched_weight S_spawn = 16"
| "sched_weight S_push = 12"
| "sched_weight S_unlock = 4"
| "sched_weight S_notify = 3"

fun bg_weight :: "bg_pc \<Rightarrow> nat" where
  "bg_weight B_front = 0"
| "bg_weight B_wait = 1"
| "bg_weight B_test = 2"
| "bg_weight B_lock = 3"
| "bg_weight (B_call f) = 5"
| "bg_weight (B_unlock f) = 6"

fun thread_weight :: "thread \<Rightarrow> nat" where
  "thread_weight (Thread Engine None) = 0"
| "thread_weight (Thread Engine (Some (t, pc))) = sched_weight pc"
| "thread_weight (Worker pc) = bg_weight pc"
| "thread_weight (Thread (Task f) None) = 4"
| "thread_weight (Thread (Task f) (Some (t, pc))) = 5 + sched_weight pc"

definition weight :: "env \<Rightarrow> nat" where
  "weight s = sum_list (map thread_weight (threads s)) + 7 * length (queue s)"

text \<open>
  What holds in every state the threads can reach. The mutex is owned by exactly the
  thread that is inside a critical section. The background thread exists exactly when
  \<^verbatim>\<open>bgthread_\<close> is set, and is the thread \<^verbatim>\<open>bgthread_\<close> names. A call of
  \<open>Schedule\<close> is about to create the thread only while there is none, and is past
  that point only when there is one. Nothing is appended before the thread exists; the
  appended tasks are the executed ones, then the one taken from the queue, then the queue;
  the queue is not empty when \<^verbatim>\<open>front()\<close> is called. While the background thread
  waits and the queue is not empty, some call of \<open>Schedule\<close> has still to signal.
  Every requested task is appended, or its call was left by an exception, or its call has
  not come to \<^verbatim>\<open>push_back\<close>; and every appended task has been signalled or its call
  has not returned yet.
\<close>

definition inv_mutex :: "env \<Rightarrow> bool" where
  "inv_mutex s =
     ((\<forall>i < length (threads s). holds (threads s ! i) = (mu s = Some i)) \<and>
      (\<forall>i. mu s = Some i \<longrightarrow> i < length (threads s)))"

definition inv_worker :: "env \<Rightarrow> bool" where
  "inv_worker s =
     ((\<forall>i < length (threads s). is_bg (threads s ! i) = (bgthread s = Some i)) \<and>
      (\<forall>w. bgthread s = Some w \<longrightarrow> w < length (threads s)) \<and>
      spawned s = (if bgthread s = None then 0 else 1))"

definition inv_sched :: "env \<Rightarrow> bool" where
  "inv_sched s =
     (\<forall>i < length (threads s). \<forall>t pc. sched_of (threads s ! i) = Some (t, pc) \<longrightarrow>
        (pc = S_spawn \<longrightarrow> bgthread s = None) \<and>
        (pc = S_push \<or> pc = S_unlock \<or> pc = S_notify \<longrightarrow> bgthread s \<noteq> None))"

definition inv_queue :: "env \<Rightarrow> bool" where
  "inv_queue s =
     ((bgthread s = None \<longrightarrow> appended s = []) \<and>
      appended s = executed s @ in_flight s @ queue s \<and>
      (\<forall>i < length (threads s). threads s ! i = Worker B_front \<longrightarrow> queue s \<noteq> []))"

fun signalling :: "thread \<Rightarrow> bool" where
  "signalling th =
     (case sched_of th of None \<Rightarrow> False | Some (t, pc) \<Rightarrow> pc = S_unlock \<or> pc = S_notify)"

definition inv_wakeup :: "env \<Rightarrow> bool" where
  "inv_wakeup s =
     ((\<exists>w < length (threads s). threads s ! w = Worker B_wait) \<and> queue s \<noteq> [] \<longrightarrow>
      (\<exists>i < length (threads s). signalling (threads s ! i)))"

fun unsignalled :: "thread \<Rightarrow> task multiset" where
  "unsignalled th =
     (case sched_of th of
        None \<Rightarrow> {#}
      | Some (t, pc) \<Rightarrow> if pc = S_unlock \<or> pc = S_notify then {#t#} else {#})"

definition inv_history :: "env \<Rightarrow> bool" where
  "inv_history s =
     (mset (requested s) =
        mset (appended s) + mset (failed s) + sum_list (map unappended (threads s)) \<and>
      mset (appended s) = mset (signalled s) + sum_list (map unsignalled (threads s)))"

definition invariant :: "env \<Rightarrow> bool" where
  "invariant s =
     (inv_mutex s \<and> inv_worker s \<and> inv_sched s \<and> inv_queue s \<and> inv_wakeup s \<and> inv_history s)"

text \<open>
  An example: two threads of the engine call \<open>Schedule\<close> at the same time; the second
  takes the mutex first, creates the background thread (thread 2) and appends its task,
  the first appends its task after it; the background thread takes the first task of the
  queue and calls it.
\<close>

definition ex_run :: "action list" where
  "ex_run =
     [Call 0 (1, 10), Call 1 (2, 20), Step 1, Step 1, Step 1, Step 1, Step 1, Step 0,
      Step 1, Step 0, Step 0, Step 0, Step 2, Step 0, Step 2, Step 2, Step 2, Step 2]"

definition ex_state :: env where
  "ex_state =
     \<lparr>mu = None, bgthread = Some 2, queue = [(1, 10)],
      threads = [Thread Engine None, Thread Engine None, Thread (Task (2, 20)) None],
      requested = [(1, 10), (2, 20)], appended = [(2, 20), (1, 10)],
      executed = [(2, 20)], spawned = 1, signalled = [(2, 20), (1, 10)], failed = []\<rparr>"

text \<open>
  A second example: the only thread of the engine calls \<open>Schedule\<close> for the first time
  and has taken the mutex and found \<^verbatim>\<open>bgthread_\<close> empty.
\<close>

definition ex_first :: "action list" where
  "ex_first = [Call 0 (1, 10), Step 0, Step 0]"

definition ex_creating :: env where
  "ex_creating =
     \<lparr>mu = Some 0, bgthread = None, queue = [],
      threads = [Thread Engine (Some ((1, 10), S_spawn))],
      requested = [(1, 10)], appended = [], executed = [], spawned = 0, signalled = [],
      failed = []\<rparr>"

text \<open>
  A third example: the creation of the thread fails in the first call of \<open>Schedule\<close>,
  and succeeds in a second call, whose task the background thread then calls before it
  waits for the next.
\<close>

definition ex_drop :: "action list" where
  "ex_drop =
     [Call 0 (1, 10), Step 0, Step 0, Refuse 0,
      Call 0 (2, 20), Step 0, Step 0, Step 0, Step 0, Step 0, Step 0,
      Step 1, Step 1, Step 1, Step 1, Step 1, Step 1, Step 1, Step 1]"

definition ex_dropped :: env where
  "ex_dropped =
     \<lparr>mu = None, bgthread = Some 1, queue = [],
      threads = [Thread Engine None, Worker B_wait],
      requested = [(1, 10), (2, 20)], appended = [(2, 20)], executed = [(2, 20)],
      spawned = 1, signalled = [(2, 20)], failed = [(1, 10)]\<rparr>"

text \<open>
  A fourth example: the only call of \<open>Schedule\<close>, in which the creation of the thread
  fails.
\<close>

definition ex_refuse :: "action list" where
  "ex_refuse = [Call 0 (1, 10), Step 0, Step 0, Refuse 0]"

definition ex_refused :: env where
  "ex_refused =
     \<lparr>mu = None, bgthread = None, queue = [], threads = [Thread Engine None],
      requested = [(1, 10)], appended = [], executed = [], spawned = 0, signalled = [],
      failed = [(1, 10)]\<rparr>"

subsection \<open>Facts about the stream model\<close>













lemma sint_long_cast:
  assumes "unat (n :: 64 word) < 2 ^ 31"
  shows "sint (ucast n :: 32 word) = int (unat n)"
proof -
  have u: "uint n < 2 ^ 31"
    using assms uint_nat [of n] by (simp del: of_nat_unat)
  have "uint (ucast n :: 32 word) = take_bit 32 (uint n)"
    by (simp add: unsigned_ucast_eq)
  also have "\<dots> = uint n"
    using u by (simp add: take_bit_int_eq_self)
  finally have "sint (ucast n :: 32 word) = signed_take_bit 31 (uint n)"
    by (simp add: sint_uint)
  also have "\<dots> = uint n"
  proof (rule signed_take_bit_int_eq_self)
    have "- (2 ^ 31) \<le> (0::int)" by simp
    also have "0 \<le> uint n" by simp
    finally show "- (2 ^ 31) \<le> uint n" .
    show "uint n < 2 ^ 31" by (rule u)
  qed
  finally show ?thesis by simp
qed

lemma Skip_below_2GiB:
  "unat n < 2 ^ 31 \<Longrightarrow>
     Skip n None filename f = (OK, f\<lparr>fpos := fpos f + unat n, eof_ind := False\<rparr>)"
  by (simp add: Skip_def fseek_cur_def sint_long_cast nat_add_distrib del: of_nat_unat)



lemma stream_ok_Skip: "stream_ok (snd (Skip n sflt filename f))" if "stream_ok f"
  using that
  by (auto simp: stream_ok_def Skip_def fseek_cur_def remaining_def Let_def split: option.splits)

subsection \<open>Claims about \_WinSequentialFile\<close>




text \<open>
  C9. \<open>Skip n\<close> does not advance the cursor by \<open>n\<close> for every 64-bit \<open>n\<close>: the
  offset is narrowed to the 32-bit \<^verbatim>\<open>long\<close> of \<open>fseek\<close>. A skip of
  \<open>2^32\<close> bytes seeks by 0 and reports success with the cursor where it was.
\<close>

theorem Skip_truncates_offset:
  "Skip 4294967296 None ''000005.log'' (fopen ''abc'') = (OK, fopen ''abc'')"
  by (simp add: Skip_def fseek_cur_def fopen_def)

subsection \<open>Claims about \_WinWritableFile\<close>

lemma drain_calls: "\<exists>ws. os_calls (drain s) = os_calls s @ map Os_write ws"
proof (cases "put_area s = []")
  case True
  then have "os_calls (drain s) = os_calls s @ map Os_write []"
    by (simp add: drain_def)
  then show ?thesis by blast
next
  case False
  then have "os_calls (drain s) = os_calls s @ map Os_write [put_area s]"
    by (simp add: drain_def)
  then show ?thesis by blast
qed

lemma flush_calls:
  "\<exists>ws. os_calls (snd (ofstream_flush io s)) = os_calls s @ map Os_write ws"
proof (cases "io = Succeed \<and> is_open s \<and> good s")
  case True
  then show ?thesis using drain_calls [of s] by (simp add: ofstream_flush_def)
next
  case False
  then have "os_calls (snd (ofstream_flush io s)) = os_calls s @ map Os_write []"
    by (cases io) (auto simp: ofstream_flush_def)
  then show ?thesis by blast
qed

lemma flush_is_open: "is_open (snd (ofstream_flush io s)) = is_open s"
  by (cases io) (auto simp: ofstream_flush_def drain_def)

lemma stream_Flush: "stream (snd (Flush io w)) = snd (ofstream_flush io (stream w))"
  by (auto simp: Flush_def split: prod.splits result.splits)

lemma snd_Sync: "snd (Sync io w) = snd (Flush io w)"
  by (auto simp: Sync_def split: prod.splits result.splits)

lemma path_Flush: "path (snd (Flush io w)) = path w"
  by (auto simp: Flush_def split: prod.splits result.splits)

text \<open>
  C7. \<open>Sync\<close> is a flush of the put area and nothing more: it leaves the file in the
  state \<open>Flush\<close> leaves it in, returns OK where \<open>Flush\<close> returns and an I/O error
  carrying the exception's text where \<open>Flush\<close> raises, and the only calls it makes to the
  operating system are writes of buffered bytes (never \<open>Os_commit\<close>).
\<close>

theorem Sync_is_Flush:
  "snd (Sync io w) = snd (Flush io w) \<and>
   fst (Sync io w) =
     (case fst (Flush io w) of
        Returns st \<Rightarrow> st
      | Raises e \<Rightarrow> Status_IOError (path w @ '' sync'') (Text e)) \<and>
   (\<exists>ws. os_calls (stream (snd (Sync io w))) = os_calls (stream w) @ map Os_write ws) \<and>
   Os_commit \<notin> set (drop (length (os_calls (stream w))) (os_calls (stream (snd (Sync io w)))))"
proof -
  obtain ws where ws:
    "os_calls (stream (snd (Sync io w))) = os_calls (stream w) @ map Os_write ws"
    using flush_calls [of io "stream w"] by (auto simp: snd_Sync stream_Flush)
  have "fst (Sync io w) =
     (case fst (Flush io w) of
        Returns st \<Rightarrow> st
      | Raises e \<Rightarrow> Status_IOError (path w @ '' sync'') (Text e))"
    by (auto simp: Sync_def Flush_def split: prod.splits result.splits)
  moreover have
    "Os_commit \<notin> set (drop (length (os_calls (stream w))) (os_calls (stream (snd (Sync io w)))))"
    unfolding ws by auto
  ultimately show ?thesis
    using ws snd_Sync by blast
qed

lemma Close_not_open: "\<not> is_open (stream w) \<Longrightarrow> Close io1 io2 w = (OK, w)"
  by (simp add: Close_def)

lemma close_closes: "\<not> is_open (snd (ofstream_close io s))"
  by (cases io) (auto simp: ofstream_close_def)

lemma Close_closes: "\<not> is_open (stream (snd (Close io1 io2 w)))"
proof (cases "is_open (stream w)")
  case True
  obtain st w1 where s: "Sync io1 w = (st, w1)" by (cases "Sync io1 w")
  obtain r s' where c: "ofstream_close io2 (stream w1) = (r, s')"
    by (cases "ofstream_close io2 (stream w1)")
  from close_closes [of io2 "stream w1"] c have "\<not> is_open s'" by simp
  with True s c show ?thesis
    by (cases r) (simp_all add: Close_def)
next
  case False
  then show ?thesis by (simp add: Close_not_open)
qed

lemma close_calls:
  "is_open s \<Longrightarrow>
     \<exists>ws. os_calls (snd (ofstream_close io s)) = os_calls s @ map Os_write ws @ [Os_close]"
proof (cases "io = Succeed")
  case True
  assume "is_open s"
  with True drain_calls [of s] show ?thesis
    by (auto simp: ofstream_close_def)
next
  case False
  assume "is_open s"
  with False have "os_calls (snd (ofstream_close io s)) = os_calls s @ map Os_write [] @ [Os_close]"
    by (cases io) (auto simp: ofstream_close_def)
  then show ?thesis by blast
qed

lemma Close_stream:
  "is_open (stream w) \<Longrightarrow>
     stream (snd (Close io1 io2 w)) =
       snd (ofstream_close io2 (snd (ofstream_flush io1 (stream w))))"
proof -
  assume o: "is_open (stream w)"
  obtain st w1 where s: "Sync io1 w = (st, w1)" by (cases "Sync io1 w")
  then have w1: "stream w1 = snd (ofstream_flush io1 (stream w))"
    using snd_Sync [of io1 w] stream_Flush [of io1 w] by simp
  obtain r s' where c: "ofstream_close io2 (stream w1) = (r, s')"
    by (cases "ofstream_close io2 (stream w1)")
  with o s have "stream (snd (Close io1 io2 w)) = s'"
    by (cases r) (simp_all add: Close_def)
  with c w1 show ?thesis by simp
qed

lemma Close_status:
  "is_open (stream w) \<Longrightarrow>
     fst (Close io1 io2 w) =
       (case io2 of Throw e \<Rightarrow> Status_IOError (generic_string (path w) @ '' close'') (Text e)
        | _ \<Rightarrow> OK)"
proof -
  assume o: "is_open (stream w)"
  obtain st w1 where s: "Sync io1 w = (st, w1)" by (cases "Sync io1 w")
  then have "stream w1 = snd (ofstream_flush io1 (stream w))"
    using snd_Sync [of io1 w] stream_Flush [of io1 w] by simp
  with o have o1: "is_open (stream w1)" by (simp add: flush_is_open)
  with o s show ?thesis
    by (cases io2) (simp_all add: Close_def ofstream_close_def)
qed

text \<open>
  C5. On an open file \<open>Close\<close> is \<open>Sync\<close> followed by \<^verbatim>\<open>close()\<close> on the
  file that \<open>Sync\<close> leaves: the stream it leaves is the one \<^verbatim>\<open>close()\<close> leaves
  after the flush. The calls it makes to the operating system are writes of buffered bytes
  followed by one \<open>Os_close\<close>. When the flush of \<open>Sync\<close> succeeds on a healthy stream,
  every appended byte has reached the operating system before \<^verbatim>\<open>close()\<close> is called,
  and is there whatever \<^verbatim>\<open>close()\<close> then does (succeed, fail or raise); the stream
  is closed afterwards. An exception raised by \<^verbatim>\<open>close()\<close> becomes an I/O error
  status with the exception's text; otherwise the status is OK. On a file that is not open (one that was
  closed before) \<open>Close\<close> returns OK and changes nothing; so a second \<open>Close\<close>, and the
  destructor after a \<open>Close\<close>, do nothing.
\<close>

theorem Close_sync_then_close_once:
  "(is_open (stream w) \<longrightarrow>
      snd (Close io1 io2 w) =
        (snd (Sync io1 w))\<lparr>stream := snd (ofstream_close io2 (stream (snd (Sync io1 w))))\<rparr> \<and>
      stream (snd (Close io1 io2 w)) =
        snd (ofstream_close io2 (snd (ofstream_flush io1 (stream w)))) \<and>
      (\<exists>ws. os_calls (stream (snd (Close io1 io2 w))) =
               os_calls (stream w) @ map Os_write ws @ [Os_close]) \<and>
      (good (stream w) \<and> io1 = Succeed \<longrightarrow>
         os_file (stream (snd (Sync io1 w))) = os_file (stream w) @ put_area (stream w) \<and>
         os_file (stream (snd (Close io1 io2 w))) = os_file (stream w) @ put_area (stream w) \<and>
         os_calls (stream (snd (Close io1 io2 w))) =
           os_calls (stream (snd (Sync io1 w))) @ [Os_close]) \<and>
      fst (Close io1 io2 w) =
        (case io2 of Throw e \<Rightarrow> Status_IOError (generic_string (path w) @ '' close'') (Text e)
         | _ \<Rightarrow> OK)) \<and>
   (\<not> is_open (stream w) \<longrightarrow> Close io1 io2 w = (OK, w)) \<and>
   \<not> is_open (stream (snd (Close io1 io2 w))) \<and>
   Close io3 io4 (snd (Close io1 io2 w)) = (OK, snd (Close io1 io2 w)) \<and>
   destroy_WritableFile io3 io4 (snd (Close io1 io2 w)) = snd (Close io1 io2 w)"
proof -
  have closed: "\<not> is_open (stream (snd (Close io1 io2 w)))"
    by (rule Close_closes)
  have again: "Close io3 io4 (snd (Close io1 io2 w)) = (OK, snd (Close io1 io2 w))"
    by (rule Close_not_open [OF closed])
  have dtor: "destroy_WritableFile io3 io4 (snd (Close io1 io2 w)) = snd (Close io1 io2 w)"
    by (simp add: destroy_WritableFile_def again)
  have calls: "\<exists>ws. os_calls (stream (snd (Close io1 io2 w))) =
               os_calls (stream w) @ map Os_write ws @ [Os_close]" if o: "is_open (stream w)"
  proof -
    let ?s1 = "snd (ofstream_flush io1 (stream w))"
    obtain ws1 where a: "os_calls ?s1 = os_calls (stream w) @ map Os_write ws1"
      using flush_calls [of io1 "stream w"] by blast
    have "is_open ?s1" using o by (simp add: flush_is_open)
    then obtain ws2 where
      b: "os_calls (snd (ofstream_close io2 ?s1)) = os_calls ?s1 @ map Os_write ws2 @ [Os_close]"
      using close_calls [of ?s1 io2] by blast
    have "os_calls (stream (snd (Close io1 io2 w))) =
            os_calls (stream w) @ map Os_write (ws1 @ ws2) @ [Os_close]"
      unfolding Close_stream [OF o] b a by simp
    then show ?thesis by blast
  qed
  have bytes: "os_file (stream (snd (Sync io1 w))) = os_file (stream w) @ put_area (stream w) \<and>
      os_file (stream (snd (Close io1 io2 w))) = os_file (stream w) @ put_area (stream w) \<and>
      os_calls (stream (snd (Close io1 io2 w))) =
        os_calls (stream (snd (Sync io1 w))) @ [Os_close]"
    if "is_open (stream w)" "good (stream w)" "io1 = Succeed"
    unfolding Close_stream [OF that(1)] snd_Sync stream_Flush using that
    by (cases io2) (simp_all add: ofstream_flush_def ofstream_close_def drain_def)
  have whole: "snd (Close io1 io2 w) =
      (snd (Sync io1 w))\<lparr>stream := snd (ofstream_close io2 (stream (snd (Sync io1 w))))\<rparr>"
    if "is_open (stream w)"
    using that by (simp add: Close_def split: prod.splits result.splits)
  from closed again dtor calls bytes whole Close_stream [of w io1 io2]
    Close_status [of w io1 io2] Close_not_open [of w io1 io2]
  show ?thesis by blast
qed

theorem Close_sync_then_close_once_witness:
  "is_open (stream (WinWritableFile ''000007.log'' True)) \<and>
   os_file (stream (snd (Close Succeed Fail
      (snd (Append ''hello'' Succeed (WinWritableFile ''000007.log'' True)))))) = ''hello'' \<and>
   os_calls (stream (snd (Close Succeed (Throw ''disk full'')
      (snd (Append ''hello'' Succeed (WinWritableFile ''000007.log'' True)))))) =
     [Os_open, Os_write ''hello'', Os_close] \<and>
   fst (Close Succeed (Throw ''disk full'') (WinWritableFile ''000007.log'' True)) =
     Status_IOError ''000007.log close'' (Text ''disk full'') \<and>
   os_file (stream (snd (Close Succeed Succeed
      (snd (Append ''hello'' Succeed (WinWritableFile ''000007.log'' True)))))) = ''hello'' \<and>
   Close Succeed Succeed (snd (Close Succeed Succeed (WinWritableFile ''000007.log'' True))) =
     (OK, snd (Close Succeed Succeed (WinWritableFile ''000007.log'' True)))"
proof -
  let ?w = "WinWritableFile ''000007.log'' True"
  let ?a = "snd (Append ''hello'' Succeed ?w)"
  have o: "is_open (stream ?w)" "is_open (stream ?a)" "good (stream ?a)"
    "os_file (stream ?a) = []" "put_area (stream ?a) = ''hello''"
    by (simp_all add: WinWritableFile_def Open_def ofstream_open_def Append_def ofstream_write_def)
  have g: "generic_string ''000007.log'' = ''000007.log''" "path ?w = ''000007.log''"
    by (simp_all add: generic_string_def WinWritableFile_def Open_def)
  have c: "os_calls (stream (snd (Sync Succeed ?a))) = [Os_open, Os_write ''hello'']"
    by (simp add: WinWritableFile_def Open_def ofstream_open_def Append_def ofstream_write_def
        Sync_def Flush_def ofstream_flush_def drain_def)
  from Close_sync_then_close_once [of ?w Succeed "Throw ''disk full''" Succeed Succeed] o(1)
  have 1: "fst (Close Succeed (Throw ''disk full'') ?w) =
      (case Throw ''disk full'' of
         Throw e \<Rightarrow> Status_IOError (generic_string (path ?w) @ '' close'') (Text e)
       | _ \<Rightarrow> OK)"
    by blast
  from Close_sync_then_close_once [of ?a Succeed Succeed Succeed Succeed] o(2,3)
  have 2: "os_file (stream (snd (Close Succeed Succeed ?a))) =
      os_file (stream ?a) @ put_area (stream ?a)"
    by blast
  from Close_sync_then_close_once [of ?a Succeed Fail Succeed Succeed] o(2,3)
  have 3: "os_file (stream (snd (Close Succeed Fail ?a))) =
      os_file (stream ?a) @ put_area (stream ?a)"
    by blast
  from Close_sync_then_close_once [of ?a Succeed "Throw ''disk full''" Succeed Succeed] o(2,3)
  have 4: "os_calls (stream (snd (Close Succeed (Throw ''disk full'') ?a))) =
      os_calls (stream (snd (Sync Succeed ?a))) @ [Os_close]"
    by blast
  from Close_sync_then_close_once [of ?w Succeed Succeed Succeed Succeed]
  have 5: "Close Succeed Succeed (snd (Close Succeed Succeed ?w)) =
      (OK, snd (Close Succeed Succeed ?w))"
    by blast
  from 1 g have 1: "fst (Close Succeed (Throw ''disk full'') ?w) =
      Status_IOError ''000007.log close'' (Text ''disk full'')"
    by simp
  from 2 3 o(4,5) have 23: "os_file (stream (snd (Close Succeed Succeed ?a))) = ''hello''"
    "os_file (stream (snd (Close Succeed Fail ?a))) = ''hello''"
    by simp_all
  from 4 c have 4: "os_calls (stream (snd (Close Succeed (Throw ''disk full'') ?a))) =
      [Os_open, Os_write ''hello'', Os_close]"
    by simp
  from o(1) 1 23 4 5 show ?thesis by blast
qed

subsection \<open>Claims about UnlockFile and StartThread\<close>

text \<open>
  C8, as stated, fails: after a successful \<open>LockFile\<close> and one \<open>UnlockFile\<close>, a second
  \<open>UnlockFile\<close> of the same pointer deletes an object that no longer exists.
\<close>

theorem UnlockFile_twice_undefined:
  "LockFile ''LOCK'' True None lock_env0 =
     (OK, Some 0,
      \<lparr>handles = [0 \<mapsto> ''LOCK''], next_handle = 1, locks = [0 \<mapsto> Handle 0], next_addr = 1\<rparr>) \<and>
   UnlockFile (Some 0)
      \<lparr>handles = [0 \<mapsto> ''LOCK''], next_handle = 1, locks = [0 \<mapsto> Handle 0], next_addr = 1\<rparr> =
     Defined (OK, \<lparr>handles = Map.empty, next_handle = 1, locks = Map.empty, next_addr = 1\<rparr>) \<and>
   UnlockFile (Some 0)
      \<lparr>handles = Map.empty, next_handle = 1, locks = Map.empty, next_addr = 1\<rparr> = Undefined"
  by (simp add: LockFile_def CreateFile_def held_def lock_env0_def UnlockFile_def delete_lock_def
      destroy_WinFileLock_def CloseHandle_def)

text \<open>
  C8, amended. \<open>UnlockFile\<close> returns OK and changes nothing when the lock is null. When
  the lock is live it returns OK, destroys the lock object and closes its handle (unless
  that is \<^verbatim>\<open>INVALID_HANDLE_VALUE\<close>), so that the file is no longer held, and it
  leaves every other lock and handle as it was; the lock is not live afterwards.
\<close>

theorem UnlockFile_null_or_live:
  "UnlockFile None s = Defined (OK, s) \<and>
   (locks s a = Some file \<longrightarrow>
      (\<exists>s'. UnlockFile (Some a) s = Defined (OK, s') \<and>
         \<not> live (Some a) s' \<and>
         (\<forall>b. b \<noteq> a \<longrightarrow> locks s' b = locks s b) \<and>
         (\<forall>h. file = Handle h \<longrightarrow> handles s' h = None) \<and>
         (\<forall>h. file \<noteq> Handle h \<longrightarrow> handles s' h = handles s h)))"
  by (cases "file")
    (auto simp: UnlockFile_def delete_lock_def destroy_WinFileLock_def CloseHandle_def live_def)

theorem UnlockFile_null_or_live_witness:
  "locks \<lparr>handles = [0 \<mapsto> ''LOCK''], next_handle = 1, locks = [0 \<mapsto> Handle 0], next_addr = 1\<rparr> 0 =
     Some (Handle 0) \<and>
   (\<exists>s'. UnlockFile (Some 0)
        \<lparr>handles = [0 \<mapsto> ''LOCK''], next_handle = 1, locks = [0 \<mapsto> Handle 0], next_addr = 1\<rparr> =
        Defined (OK, s') \<and> \<not> live (Some 0) s' \<and> handles s' 0 = None \<and>
        \<not> held ''LOCK'' s')"
proof -
  let ?s = "\<lparr>handles = [0 \<mapsto> ''LOCK''], next_handle = 1, locks = [0 \<mapsto> Handle 0],
             next_addr = 1\<rparr>"
  have l: "locks ?s 0 = Some (Handle 0)" by simp
  from UnlockFile_null_or_live [of ?s 0 "Handle 0"] l
  obtain s' where s': "UnlockFile (Some 0) ?s = Defined (OK, s')" "\<not> live (Some 0) s'"
    "handles s' 0 = None"
    by auto
  from s'(1) have "next_handle s' = 1"
    by (auto simp: UnlockFile_def delete_lock_def destroy_WinFileLock_def CloseHandle_def)
  with s'(3) have "\<not> held ''LOCK'' s'"
    by (auto simp: held_def)
  with l s' show ?thesis by blast
qed

text \<open>
  C4 fails on the code: \<open>StartThread\<close> starts the thread, but the local
  \<^verbatim>\<open>std::thread\<close> object is destroyed while joinable, which terminates the process;
  when the thread cannot be started the constructor's exception leaves the function. So
  \<open>StartThread\<close> never returns normally.
\<close>

theorem StartThread_terminates_process:
  "StartThread function arg True p = Terminated \<and>
   (\<forall>started p'. StartThread function arg started p \<noteq> Returned p')"
  by (simp add: StartThread_def thread_ctor_def thread_dtor_def)

subsection \<open>Claims about CreateDir\<close>












subsection \<open>Claims about \_WinLogger\<close>

declare dec.simps [simp del] hex.simps [simp del]

lemma length_dec: "0 < k \<Longrightarrow> n < 10 ^ k \<Longrightarrow> length (dec n) \<le> k"
proof (induction k arbitrary: n)
  case 0
  then show ?case by simp
next
  case (Suc k)
  show ?case
  proof (cases "n < 10")
    case True
    then show ?thesis by (subst dec.simps) simp
  next
    case False
    with Suc.prems have "0 < k" by (cases k) auto
    moreover from Suc.prems have "n div 10 < 10 ^ k"
      by (simp add: less_mult_imp_div_less mult.commute)
    ultimately have "length (dec (n div 10)) \<le> k" by (rule Suc.IH)
    with False show ?thesis by (subst dec.simps) simp
  qed
qed

lemma length_hex: "0 < k \<Longrightarrow> n < 16 ^ k \<Longrightarrow> length (hex n) \<le> k"
proof (induction k arbitrary: n)
  case 0
  then show ?case by simp
next
  case (Suc k)
  show ?case
  proof (cases "n < 16")
    case True
    then show ?thesis by (subst hex.simps) simp
  next
    case False
    with Suc.prems have "0 < k" by (cases k) auto
    moreover from Suc.prems have "n div 16 < 16 ^ k"
      by (simp add: less_mult_imp_div_less mult.commute)
    ultimately have "length (hex (n div 16)) \<le> k" by (rule Suc.IH)
    with False show ?thesis by (subst hex.simps) simp
  qed
qed

lemma length_fmt_d: "length (fmt_d w (unat (x :: 16 word))) \<le> max w 5"
proof -
  have "unat x < 10 ^ 5"
    using unsigned_less [of x, where ?'a = nat] by simp
  then have "length (dec (unat x)) \<le> 5"
    by (intro length_dec) simp_all
  then show ?thesis by (simp add: fmt_d_def)
qed

lemma length_hex_tid: "length (hex (unat (ucast (tid :: 32 word) :: 64 word))) \<le> 8"
proof -
  have b: "unat tid < 2 ^ 32"
    using unsigned_less [of tid, where ?'a = nat] by simp
  have "unat (ucast tid :: 64 word) = take_bit 64 (unat tid)"
    by (simp add: unsigned_ucast_eq)
  also have "\<dots> = unat tid"
    using b by (intro take_bit_nat_eq_self) simp
  finally have "unat (ucast tid :: 64 word) < 16 ^ 8"
    using b by simp
  then show ?thesis
    by (intro length_hex) simp_all
qed

lemma unat_tid: "unat (ucast (tid :: 32 word) :: 64 word) = unat tid"
proof -
  have b: "unat tid < 2 ^ 32"
    using unsigned_less [of tid, where ?'a = nat] by simp
  have "unat (ucast tid :: 64 word) = take_bit 64 (unat tid)"
    by (simp add: unsigned_ucast_eq)
  also have "\<dots> = unat tid"
    using b by (intro take_bit_nat_eq_self) simp
  finally show ?thesis .
qed

lemma digit_value_digit: "d < 16 \<Longrightarrow> digit_value (digit d) = d"
proof -
  assume "d < 16"
  then have "d \<in> {0, 1, 2, 3, 4, 5, 6, 7, 8, 9, 10, 11, 12, 13, 14, 15}"
    by simp arith
  then show ?thesis
    by (auto simp: digit_value_def digit_def)
qed

lemma digit_zero: "d < 16 \<Longrightarrow> digit d = CHR ''0'' \<Longrightarrow> d = 0"
proof -
  assume d: "d < 16" and "digit d = CHR ''0''"
  then have "digit_value (digit d) = digit_value (digit 0)"
    by (simp add: digit_def)
  with d show ?thesis by (simp add: digit_value_digit)
qed

lemma number_append:
  "number b (xs @ ys) = foldl (\<lambda>a c. b * a + digit_value c) (number b xs) ys"
  by (simp add: number_def)

lemma number_zeros: "number b (replicate k CHR ''0'') = 0"
proof (induction k)
  case 0
  then show ?case by (simp add: number_def)
next
  case (Suc k)
  have "replicate (Suc k) CHR ''0'' = replicate k CHR ''0'' @ [CHR ''0'']"
    by (simp add: replicate_append_same)
  then have "number b (replicate (Suc k) CHR ''0'') =
      b * number b (replicate k CHR ''0'') + digit_value CHR ''0''"
    by (simp only: number_append) simp
  with Suc show ?case by (simp add: digit_value_def)
qed

lemma number_padded: "number b (replicate k CHR ''0'' @ s) = number b s"
  by (simp only: number_append number_zeros) (simp add: number_def)

lemma dec_not_Nil: "dec n \<noteq> []"
  by (subst dec.simps) simp

lemma hex_not_Nil: "hex n \<noteq> []"
  by (subst hex.simps) simp

lemma dec_reads:
  "number 10 (dec n) = n \<and> (\<forall>c \<in> set (dec n). digit_value c < 10) \<and>
   (0 < n \<longrightarrow> hd (dec n) \<noteq> CHR ''0'') \<and> (n < 10 \<longrightarrow> length (dec n) = 1)"
proof (induction n rule: dec.induct)
  case (1 n)
  show ?case
  proof (cases "n < 10")
    case True
    then have d: "dec n = [digit n]" by (subst dec.simps) simp
    from True have "n < 16" by simp
    from digit_value_digit [OF this] digit_zero [OF this] True d show ?thesis
      by (auto simp: number_def)
  next
    case False
    then have d: "dec n = dec (n div 10) @ [digit (n mod 10)]" by (subst dec.simps) simp
    have m: "n mod 10 < 16" "n mod 10 < 10"
      using pos_mod_bound [of 10 "int n"] by simp_all
    from False have p: "0 < n div 10" by (simp add: div_greater_zero_iff)
    from 1 [OF False] p have ih: "number 10 (dec (n div 10)) = n div 10"
      "\<forall>c \<in> set (dec (n div 10)). digit_value c < 10" "hd (dec (n div 10)) \<noteq> CHR ''0''"
      by simp_all
    have "number 10 (dec n) = 10 * (n div 10) + n mod 10"
      unfolding d number_append ih(1) by (simp add: digit_value_digit [OF m(1)])
    moreover have "hd (dec n) = hd (dec (n div 10))"
      unfolding d using dec_not_Nil [of "n div 10"] by simp
    moreover have "\<forall>c \<in> set (dec n). digit_value c < 10"
      unfolding d using ih(2) digit_value_digit [OF m(1)] m(2) by simp
    ultimately show ?thesis using ih(3) False by simp
  qed
qed

lemma hex_reads:
  "number 16 (hex n) = n \<and> (\<forall>c \<in> set (hex n). digit_value c < 16) \<and>
   (0 < n \<longrightarrow> hd (hex n) \<noteq> CHR ''0'') \<and> (n < 16 \<longrightarrow> length (hex n) = 1)"
proof (induction n rule: hex.induct)
  case (1 n)
  show ?case
  proof (cases "n < 16")
    case True
    then have d: "hex n = [digit n]" by (subst hex.simps) simp
    from digit_value_digit [OF True] digit_zero [OF True] True d show ?thesis
      by (auto simp: number_def)
  next
    case False
    then have d: "hex n = hex (n div 16) @ [digit (n mod 16)]" by (subst hex.simps) simp
    have m: "n mod 16 < 16"
      using pos_mod_bound [of 16 "int n"] by simp
    from False have p: "0 < n div 16" by (simp add: div_greater_zero_iff)
    from 1 [OF False] p have ih: "number 16 (hex (n div 16)) = n div 16"
      "\<forall>c \<in> set (hex (n div 16)). digit_value c < 16" "hd (hex (n div 16)) \<noteq> CHR ''0''"
      by simp_all
    have "number 16 (hex n) = 16 * (n div 16) + n mod 16"
      unfolding d number_append ih(1) by (simp add: digit_value_digit [OF m])
    moreover have "hd (hex n) = hd (hex (n div 16))"
      unfolding d using hex_not_Nil [of "n div 16"] by simp
    moreover have "\<forall>c \<in> set (hex n). digit_value c < 16"
      unfolding d using ih(2) digit_value_digit [OF m] m by simp
    ultimately show ?thesis using ih(3) False by simp
  qed
qed

lemma conversion_fmt_d:
  assumes "0 < w"
  shows "conversion 10 w (fmt_d w n) n"
proof -
  note r = dec_reads [of n]
  have z: "digit_value CHR ''0'' < 10" by (simp add: digit_value_def)
  have 1: "\<forall>c \<in> set (fmt_d w n). digit_value c < 10"
    using r z by (auto simp: fmt_d_def)
  have 2: "number 10 (fmt_d w n) = n"
    using r by (simp add: fmt_d_def number_padded)
  have 3: "w \<le> length (fmt_d w n)"
    by (simp add: fmt_d_def)
  have 4: "hd (fmt_d w n) \<noteq> CHR ''0''" if "w < length (fmt_d w n)"
  proof -
    from that have l: "w < length (dec n)" and e: "fmt_d w n = dec n"
      by (simp_all add: fmt_d_def split: if_splits)
    from l assms r have "\<not> n < 10" by auto
    with r e show ?thesis by simp
  qed
  from 1 2 3 4 show ?thesis by (simp add: conversion_def)
qed

lemma conversion_hex: "conversion 16 1 (hex n) n"
proof -
  note r = hex_reads [of n]
  have "1 \<le> length (hex n)"
    using hex_not_Nil [of n] by (cases "hex n") simp_all
  moreover have "hd (hex n) \<noteq> CHR ''0''" if "1 < length (hex n)"
  proof -
    from that r have "\<not> n < 16" by auto
    with r show ?thesis by simp
  qed
  ultimately show ?thesis using r by (simp add: conversion_def)
qed

lemma header_format:
  "\<exists>y mo d hh mi ss ms x.
     header st tid =
       y @ ''/'' @ mo @ ''/'' @ d @ ''-'' @ hh @ '':'' @ mi @ '':'' @ ss @ ''.'' @ ms @
       '' '' @ x @ '' '' \<and>
     conversion 10 4 y (unat (wYear st)) \<and> conversion 10 2 mo (unat (wMonth st)) \<and>
     conversion 10 2 d (unat (wDay st)) \<and> conversion 10 2 hh (unat (wHour st)) \<and>
     conversion 10 2 mi (unat (wMinute st)) \<and> conversion 10 2 ss (unat (wSecond st)) \<and>
     conversion 10 3 ms (unat (wMilliseconds st)) \<and> conversion 16 1 x (unat tid)"
proof (intro exI conjI)
  show "header st tid =
       fmt_d 4 (unat (wYear st)) @ ''/'' @ fmt_d 2 (unat (wMonth st)) @ ''/'' @
       fmt_d 2 (unat (wDay st)) @ ''-'' @ fmt_d 2 (unat (wHour st)) @ '':'' @
       fmt_d 2 (unat (wMinute st)) @ '':'' @ fmt_d 2 (unat (wSecond st)) @ ''.'' @
       fmt_d 3 (unat (wMilliseconds st)) @ '' '' @ hex (unat tid) @ '' ''"
    by (simp add: header_def unat_tid)
qed (simp_all add: conversion_fmt_d conversion_hex del: One_nat_def)

lemma length_header: "length (header st tid) \<le> 51"
  using length_fmt_d [of 4 "wYear st"] length_fmt_d [of 2 "wMonth st"]
    length_fmt_d [of 2 "wDay st"] length_fmt_d [of 2 "wHour st"]
    length_fmt_d [of 2 "wMinute st"] length_fmt_d [of 2 "wSecond st"]
    length_fmt_d [of 3 "wMilliseconds st"] length_hex_tid [of tid]
  by (simp add: header_def)

lemma header_last: "header st tid \<noteq> [] \<and> last (header st tid) = CHR '' ''"
  by (simp add: header_def)

lemma nth_last_int: "xs \<noteq> [] \<Longrightarrow> xs ! nat (int (length xs) - 1) = last xs"
proof -
  assume "xs \<noteq> []"
  moreover have "nat (int (length xs) - 1) = length xs - 1"
    by arith
  ultimately show ?thesis
    by (simp add: last_conv_nth)
qed

lemma Logv_attempt_fits:
  assumes "hdr \<noteq> []" "length (hdr @ msg) < bufsize"
  shows "Logv_attempt iter bufsize hdr msg = Line (terminated (hdr @ msg))"
proof -
  let ?full = "hdr @ msg"
  from assms have h: "length hdr < bufsize" by simp
  have s1: "snprintf_s_TRUNCATE bufsize hdr = (hdr, int (length hdr))"
    using h by (simp add: snprintf_s_TRUNCATE_def)
  have s2: "vsnprintf (nat (int bufsize - int (length hdr))) msg = (msg, int (length msg))"
    using assms by (simp add: vsnprintf_def)
  have p: "int (length hdr) + int (length msg) = int (length ?full)"
    by simp
  have nz: "int (length ?full) \<noteq> 0" "\<not> int bufsize \<le> int (length ?full)"
    "int (length ?full) \<le> int bufsize" "int (length ?full) + 1 \<le> int bufsize"
    using assms by (cases hdr; simp)+
  have e: "?full \<noteq> []" using assms(1) by simp
  have l: "?full ! nat (int (length ?full) - 1) = last ?full"
    by (rule nth_last_int [OF e])
  have t: "take (nat (int (length ?full))) ?full = ?full"
    "take (nat (int (length ?full) + 1)) (?full @ [newline]) = ?full @ [newline]"
    by (simp_all add: nat_add_distrib)
  show ?thesis
    unfolding Logv_attempt_def s1 Let_def prod.case
    using h
    by (auto simp only: s2 prod.case p nz l t e terminated_def add_0 of_nat_less_iff
        of_nat_less_0_iff if_False if_True take_all order_refl nat_int simp_thms split: if_split)
qed

lemma Logv_attempt_retry:
  assumes "length hdr < bufsize" "bufsize \<le> length (hdr @ msg)"
  shows "Logv_attempt 0 bufsize hdr msg = Retry"
  using assms
  by (simp add: Logv_attempt_def snprintf_s_TRUNCATE_def vsnprintf_def)

lemma Logv_attempt_truncates:
  assumes "hdr \<noteq> []" "length hdr < bufsize" "bufsize \<le> length (hdr @ msg)" "iter \<noteq> 0"
  shows "Logv_attempt iter bufsize hdr msg = Line (terminated (take (bufsize - 1) (hdr @ msg)))"
proof -
  let ?t = "take (bufsize - 1) (hdr @ msg)"
  have s1: "snprintf_s_TRUNCATE bufsize hdr = (hdr, int (length hdr))"
    using assms(2) by (simp add: snprintf_s_TRUNCATE_def)
  have s2: "vsnprintf (nat (int bufsize - int (length hdr))) msg =
      (take (bufsize - 1 - length hdr) msg, int (length msg))"
    by (simp add: vsnprintf_def nat_diff_distrib')
  have b: "take (nat (int (length hdr))) hdr @ take (bufsize - 1 - length hdr) msg = ?t"
    using assms(2) by simp
  have n: "length ?t = bufsize - 1" "?t \<noteq> []"
    using assms by auto
  have ge: "int bufsize \<le> int (length hdr) + int (length msg)" "int (length hdr) < int bufsize"
    "\<not> int (length hdr) < 0" "int bufsize - 1 \<noteq> 0" "int bufsize - 1 \<le> int bufsize"
    "int bufsize - 1 + 1 \<le> int bufsize"
    using assms by auto
  have l: "?t ! nat (int bufsize - 1 - 1) = last ?t"
  proof -
    have "int bufsize - 1 = int (length ?t)"
      unfolding n(1) using assms(2) by arith
    then show ?thesis
      using nth_last_int [OF n(2)] by (simp only:)
  qed
  have k: "nat (int bufsize - 1) = length ?t"
    "nat (int bufsize - 1 + 1) = length (?t @ [newline])"
    unfolding length_append n(1) using assms(2) by simp_all
  have tt: "take (nat (int bufsize - 1)) ?t = ?t"
    "take (nat (int bufsize - 1 + 1)) (?t @ [newline]) = ?t @ [newline]"
    unfolding k by (rule take_all, rule order_refl)+
  show ?thesis
    unfolding Logv_attempt_def s1 Let_def prod.case
    using assms(4)
    by (auto simp only: s2 prod.case b ge l tt n terminated_def add_0 if_False if_True simp_thms
        split: if_split)
qed

text \<open>
  C6. \<open>Logv\<close> never overruns a buffer and writes exactly one line, then flushes once.
  The line is the header followed by the message, with a newline added unless the text
  already ends with one. The header of a local time \<open>st\<close> and a thread id \<open>tid\<close> reads
  as year \<^verbatim>\<open>/\<close> month \<^verbatim>\<open>/\<close> day \<^verbatim>\<open>-\<close> hour \<^verbatim>\<open>:\<close> minute \<^verbatim>\<open>:\<close> second
  \<^verbatim>\<open>.\<close> millisecond, a space, the thread id and a space, where the year is printed in
  decimal with at least 4 digits, the millisecond with at least 3 and the others with at
  least 2, padded with zeros, and the thread id in lower-case hexadecimal without
  padding. The 500-byte stack
  buffer is used when header and message need fewer than 500 characters; otherwise the
  first iteration asks for the second, which formats into the 30000-byte buffer (with the
  time read again), keeps the first 29999 characters when the text is longer, and again
  adds a newline unless the kept text ends with one.
\<close>

theorem Logv_one_line:
  "Logv st0 st1 tid msg f =
     Some (f\<lparr>on_disk := on_disk f @ pending f @
                (if length (header st0 tid @ msg) < 500
                 then terminated (header st0 tid @ msg)
                 else terminated (take 29999 (header st1 tid @ msg))),
              pending := [], flushes := flushes f + 1\<rparr>) \<and>
   (Logv_attempt 0 500 (header st0 tid) msg = Retry) = (500 \<le> length (header st0 tid @ msg)) \<and>
   last (terminated (take 29999 (header st1 tid @ msg))) = newline \<and>
   length (terminated (take 29999 (header st1 tid @ msg))) \<le> 30000 \<and>
   (\<exists>y mo d hh mi ss ms x.
      header st tid =
        y @ ''/'' @ mo @ ''/'' @ d @ ''-'' @ hh @ '':'' @ mi @ '':'' @ ss @ ''.'' @ ms @
        '' '' @ x @ '' '' \<and>
      conversion 10 4 y (unat (wYear st)) \<and> conversion 10 2 mo (unat (wMonth st)) \<and>
      conversion 10 2 d (unat (wDay st)) \<and> conversion 10 2 hh (unat (wHour st)) \<and>
      conversion 10 2 mi (unat (wMinute st)) \<and> conversion 10 2 ss (unat (wSecond st)) \<and>
      conversion 10 3 ms (unat (wMilliseconds st)) \<and> conversion 16 1 x (unat tid))"
proof -
  let ?h0 = "header st0 tid" and ?h1 = "header st1 tid"
  have h0: "?h0 \<noteq> []" "length ?h0 < 500" and h1: "?h1 \<noteq> []" "length ?h1 < 30000"
    using header_last [of st0 tid] header_last [of st1 tid]
      length_header [of st0 tid] length_header [of st1 tid] by simp_all
  have fl: "fflush (fwrite l f) =
      f\<lparr>on_disk := on_disk f @ pending f @ l, pending := [], flushes := flushes f + 1\<rparr>" for l
    by (simp add: fflush_def fwrite_def)
  have second: "Logv_attempt 1 30000 ?h1 msg = Line (terminated (take 29999 (?h1 @ msg)))"
  proof (cases "length (?h1 @ msg) < 30000")
    case True
    then have "take 29999 (?h1 @ msg) = ?h1 @ msg" by simp
    with Logv_attempt_fits [OF h1(1) True, of 1] show ?thesis by simp
  next
    case False
    then have "30000 \<le> length (?h1 @ msg)" by simp
    from Logv_attempt_truncates [OF h1 this, of 1] show ?thesis by simp
  qed
  have a: "Logv st0 st1 tid msg f =
     Some (f\<lparr>on_disk := on_disk f @ pending f @
                (if length (?h0 @ msg) < 500
                 then terminated (?h0 @ msg)
                 else terminated (take 29999 (?h1 @ msg))),
              pending := [], flushes := flushes f + 1\<rparr>)"
  proof (cases "length (?h0 @ msg) < 500")
    case True
    from Logv_attempt_fits [OF h0(1) True, of 0] True show ?thesis
      by (simp add: Logv_def fl)
  next
    case False
    then have "500 \<le> length (?h0 @ msg)" by simp
    from Logv_attempt_retry [OF h0(2) this] second False show ?thesis
      by (simp add: Logv_def fl)
  qed
  have b: "(Logv_attempt 0 500 ?h0 msg = Retry) = (500 \<le> length (?h0 @ msg))"
  proof (cases "length (?h0 @ msg) < 500")
    case True
    from Logv_attempt_fits [OF h0(1) True, of 0] True show ?thesis by simp
  next
    case False
    then have "500 \<le> length (?h0 @ msg)" by simp
    from Logv_attempt_retry [OF h0(2) this] this show ?thesis by simp
  qed
  have c: "last (terminated s) = newline" for s
    by (simp add: terminated_def)
  have d: "length (terminated (take 29999 s)) \<le> 30000" for s
    by (simp add: terminated_def min_def)
  from a b c d header_format [of st tid] show ?thesis by (intro conjI)
qed

lemma header_example:
  "header \<lparr>wYear = 2011, wMonth = 3, wDay = 4, wHour = 5, wMinute = 6, wSecond = 7,
            wMilliseconds = 89\<rparr> 6699 = ''2011/03/04-05:06:07.089 1a2b ''"
  by (simp add: header_def fmt_d_def dec.simps hex.simps digit_def)

theorem Logv_one_line_witness:
  "Logv \<lparr>wYear = 2011, wMonth = 3, wDay = 4, wHour = 5, wMinute = 6, wSecond = 7,
            wMilliseconds = 89\<rparr>
        \<lparr>wYear = 2011, wMonth = 3, wDay = 4, wHour = 5, wMinute = 6, wSecond = 7,
            wMilliseconds = 90\<rparr> 6699 ''Recovering log #5''
        \<lparr>pending = [], on_disk = [], flushes = 0\<rparr> =
     Some \<lparr>pending = [],
           on_disk = ''2011/03/04-05:06:07.089 1a2b Recovering log #5'' @ [newline],
           flushes = 1\<rparr>"
  using Logv_one_line [of "\<lparr>wYear = 2011, wMonth = 3, wDay = 4, wHour = 5, wMinute = 6,
      wSecond = 7, wMilliseconds = 89\<rparr>" "\<lparr>wYear = 2011, wMonth = 3, wDay = 4, wHour = 5,
      wMinute = 6, wSecond = 7, wMilliseconds = 90\<rparr>" 6699 "''Recovering log #5''"
      "\<lparr>pending = [], on_disk = [], flushes = 0\<rparr>"]
  by (simp add: header_example terminated_def newline_def)

subsection \<open>Claims about the background queue\<close>

lemma length_wake_first [simp]: "length (wake_first ths) = length ths"
  by (induction ths) auto

lemma wake_first_nth:
  "i < length ths \<Longrightarrow>
     wake_first ths ! i = ths ! i \<or> ths ! i = Worker B_wait \<and> wake_first ths ! i = Worker B_lock"
proof (induction ths arbitrary: i)
  case Nil
  then show ?case by simp
next
  case (Cons th ths)
  then show ?case by (cases i) auto
qed

lemma wake_first_same:
  assumes "g (Worker B_wait) = g (Worker B_lock)" "i < length ths"
  shows "g (wake_first ths ! i) = g (ths ! i)"
  using wake_first_nth [OF assms(2)] assms(1) by auto

lemma wake_first_map:
  assumes "g (Worker B_wait) = g (Worker B_lock)"
  shows "map g (wake_first ths) = map g ths"
  using assms by (induction ths) auto

lemma wake_first_unique:
  assumes "\<forall>i j. i < length ths \<and> j < length ths \<and> ths ! i = Worker B_wait \<and> ths ! j = Worker B_wait
      \<longrightarrow> i = j"
    and "i < length ths"
  shows "wake_first ths ! i \<noteq> Worker B_wait"
  using assms
proof (induction ths arbitrary: i)
  case Nil
  then show ?case by simp
next
  case (Cons th ths)
  show ?case
  proof (cases "th = Worker B_wait")
    case True
    show ?thesis
    proof (cases i)
      case 0
      with True show ?thesis by simp
    next
      case (Suc j)
      from Cons.prems(1) [rule_format, of 0 "Suc j"] True Suc Cons.prems(2)
      have "ths ! j \<noteq> Worker B_wait" by auto
      with True Suc show ?thesis by simp
    qed
  next
    case False
    show ?thesis
    proof (cases i)
      case 0
      with False show ?thesis by simp
    next
      case (Suc j)
      have "\<forall>a b. a < length ths \<and> b < length ths \<and> ths ! a = Worker B_wait \<and>
          ths ! b = Worker B_wait \<longrightarrow> a = b"
      proof (intro allI impI)
        fix a b
        assume "a < length ths \<and> b < length ths \<and> ths ! a = Worker B_wait \<and>
          ths ! b = Worker B_wait"
        with Cons.prems(1) [rule_format, of "Suc a" "Suc b"] show "a = b" by simp
      qed
      from Cons.IH [OF this, of j] Suc Cons.prems(2) False show ?thesis by simp
    qed
  qed
qed

lemma act_cases [consumes 1, case_names Call Return Spurious S_lock S_test S_spawn S_push
    S_unlock S_notify B_lock B_sleep B_test B_front B_unlock B_call Refuse]:
  assumes "act a s = Some s'"
  obtains
    (Call) i t x where "i < length (threads s)" "threads s ! i = Thread x None"
      "s' = set_thread i (Thread x (Some (t, S_lock))) (s\<lparr>requested := requested s @ [t]\<rparr>)"
      "a = Call i t"
  | (Return) i f where "i < length (threads s)" "threads s ! i = Thread (Task f) None"
      "s' = set_thread i (Worker B_lock) s" "a = Step i"
  | (Spurious) i where "i < length (threads s)" "threads s ! i = Worker B_wait"
      "s' = set_thread i (Worker B_lock) s" "a = Spurious i"
  | (S_lock) i t x where "i < length (threads s)" "threads s ! i = Thread x (Some (t, S_lock))"
      "mu s = None" "s' = set_thread i (Thread x (Some (t, S_test))) (s\<lparr>mu := Some i\<rparr>)"
      "a = Step i"
  | (S_test) i t x where "i < length (threads s)" "threads s ! i = Thread x (Some (t, S_test))"
      "s' = set_thread i (Thread x (Some (t, if bgthread s = None then S_spawn else S_push))) s"
      "a = Step i"
  | (S_spawn) i t x where "i < length (threads s)"
      "threads s ! i = Thread x (Some (t, S_spawn))"
      "s' = set_thread i (Thread x (Some (t, S_push)))
         (s\<lparr>bgthread := Some (length (threads s)), threads := threads s @ [Worker B_lock],
            spawned := spawned s + 1\<rparr>)" "a = Step i"
  | (S_push) i t x where "i < length (threads s)" "threads s ! i = Thread x (Some (t, S_push))"
      "s' = set_thread i (Thread x (Some (t, S_unlock)))
         (s\<lparr>queue := queue s @ [t], appended := appended s @ [t]\<rparr>)" "a = Step i"
  | (S_unlock) i t x where "i < length (threads s)"
      "threads s ! i = Thread x (Some (t, S_unlock))"
      "s' = set_thread i (Thread x (Some (t, S_notify))) (s\<lparr>mu := None\<rparr>)" "a = Step i"
  | (S_notify) i t x where "i < length (threads s)"
      "threads s ! i = Thread x (Some (t, S_notify))"
      "s' = set_thread i (Thread x None)
         (s\<lparr>threads := wake_first (threads s), signalled := signalled s @ [t]\<rparr>)" "a = Step i"
  | (B_lock) i where "i < length (threads s)" "threads s ! i = Worker B_lock" "mu s = None"
      "s' = set_thread i (Worker B_test) (s\<lparr>mu := Some i\<rparr>)" "a = Step i"
  | (B_sleep) i where "i < length (threads s)" "threads s ! i = Worker B_test" "queue s = []"
      "s' = set_thread i (Worker B_wait) (s\<lparr>mu := None\<rparr>)" "a = Step i"
  | (B_test) i where "i < length (threads s)" "threads s ! i = Worker B_test" "queue s \<noteq> []"
      "s' = set_thread i (Worker B_front) s" "a = Step i"
  | (B_front) i f q where "i < length (threads s)" "threads s ! i = Worker B_front"
      "queue s = f # q" "s' = set_thread i (Worker (B_unlock f)) (s\<lparr>queue := q\<rparr>)" "a = Step i"
  | (B_unlock) i f where "i < length (threads s)" "threads s ! i = Worker (B_unlock f)"
      "s' = set_thread i (Worker (B_call f)) (s\<lparr>mu := None\<rparr>)" "a = Step i"
  | (B_call) i f where "i < length (threads s)" "threads s ! i = Worker (B_call f)"
      "s' = set_thread i (Thread (Task f) None) (s\<lparr>executed := executed s @ [f]\<rparr>)" "a = Step i"
  | (Refuse) i t x where "i < length (threads s)"
      "threads s ! i = Thread x (Some (t, S_spawn))"
      "s' = set_thread i (Thread x None) (s\<lparr>mu := None, failed := failed s @ [t]\<rparr>)"
      "a = Refuse i"
proof -
  note R = that
  show ?thesis
  proof (cases a)
    case (Call i t)
    with assms have i: "i < length (threads s)"
      by (simp split: if_splits)
    with assms Call obtain th where th: "enter t (threads s ! i) = Some th"
      and s': "s' = set_thread i th (s\<lparr>requested := requested s @ [t]\<rparr>)"
      by (auto split: option.splits)
    from th obtain x where "threads s ! i = Thread x None" "th = Thread x (Some (t, S_lock))"
      by (cases "(t, threads s ! i)" rule: enter.cases) auto
    with i s' Call R(1) [of i x t] show ?thesis by simp
  next
    case (Spurious i)
    with assms R(3) [of i] show ?thesis by (simp split: if_splits)
  next
    case (Refuse i)
    with assms have i: "i < length (threads s)"
      and tt: "thread_throw i (threads s ! i) s = Some s'"
      by (simp_all split: if_splits)
    show ?thesis
    proof (cases "threads s ! i")
      case (Thread x c)
      show ?thesis
      proof (cases c)
        case None
        with tt Thread show ?thesis by simp
      next
        case (Some a)
        then obtain t pc where c: "c = Some (t, pc)" by (cases a) auto
        show ?thesis
        proof (cases pc)
          case S_spawn
          with tt c Thread i Refuse R(16) [of i x t] show ?thesis by simp
        qed (use tt c Thread in simp_all)
      qed
    next
      case (Worker pc)
      with tt show ?thesis by simp
    qed
  next
    case (Step i)
    with assms have i: "i < length (threads s)"
      and ts: "thread_step i (threads s ! i) s = Some s'"
      by (simp_all add: step_def split: if_splits)
    show ?thesis
    proof (cases "threads s ! i")
      case (Thread x c)
      show ?thesis
      proof (cases c)
        case None
        with ts Thread obtain f where "x = Task f" by (cases x) auto
        with None ts Thread i Step R(2) [of i f] show ?thesis by simp
      next
        case (Some a)
        then obtain t pc where c: "c = Some (t, pc)" by (cases a) auto
        with ts Thread have st: "sched_step i x t pc True s = Some s'" by simp
        show ?thesis
        proof (cases pc)
          case S_lock
          with st c Thread i Step R(4) [of i x t] show ?thesis by (simp split: if_splits)
        next
          case S_test
          with st c Thread i Step R(5) [of i x t] show ?thesis by simp
        next
          case S_spawn
          with st c Thread i Step R(6) [of i x t] show ?thesis by simp
        next
          case S_push
          with st c Thread i Step R(7) [of i x t] show ?thesis by simp
        next
          case S_unlock
          with st c Thread i Step R(8) [of i x t] show ?thesis by simp
        next
          case S_notify
          with st c Thread i Step R(9) [of i x t] show ?thesis by simp
        qed
      qed
    next
      case (Worker pc)
      show ?thesis
      proof (cases pc)
        case B_lock
        with ts Worker i Step R(10) [of i] show ?thesis by (simp split: if_splits)
      next
        case B_test
        with ts Worker i Step R(11) [of i] R(12) [of i] show ?thesis
          by (simp split: if_splits)
      next
        case B_wait
        with ts Worker show ?thesis by simp
      next
        case B_front
        with ts Worker i Step R(13) [of i] show ?thesis by (simp split: list.splits)
      next
        case (B_unlock f)
        with ts Worker i Step R(14) [of i f] show ?thesis by simp
      next
        case (B_call f)
        with ts Worker i Step R(15) [of i f] show ?thesis by simp
      qed
    qed
  qed
qed

lemma set_thread_simps [simp]:
  "mu (set_thread i th s) = mu s" "bgthread (set_thread i th s) = bgthread s"
  "queue (set_thread i th s) = queue s" "threads (set_thread i th s) = (threads s)[i := th]"
  "requested (set_thread i th s) = requested s" "appended (set_thread i th s) = appended s"
  "executed (set_thread i th s) = executed s" "spawned (set_thread i th s) = spawned s"
  "signalled (set_thread i th s) = signalled s" "failed (set_thread i th s) = failed s"
  by (simp_all add: set_thread_def)

lemma sched_of_eq_Some [simp]: "(sched_of th = Some y) = (\<exists>x. th = Thread x (Some y))"
  by (cases th) auto

lemma is_bg_Thread [simp]: "is_bg (Thread x c) = (x \<noteq> Engine)"
  by (cases x) auto

lemma is_running_Thread [simp]: "is_running (Thread x c) = (x \<noteq> Engine)"
  by (cases x) auto

lemma wake_first_holds [simp]:
  "i < length ths \<Longrightarrow> holds (wake_first ths ! i) = holds (ths ! i)"
  "i < length ths \<Longrightarrow> is_bg (wake_first ths ! i) = is_bg (ths ! i)"
  "i < length ths \<Longrightarrow> sched_of (wake_first ths ! i) = sched_of (ths ! i)"
  "i < length ths \<Longrightarrow> taken (wake_first ths ! i) = taken (ths ! i)"
  "i < length ths \<Longrightarrow> is_running (wake_first ths ! i) = is_running (ths ! i)"
  "i < length ths \<Longrightarrow> (wake_first ths ! i = Worker B_front) = (ths ! i = Worker B_front)"
  by (rule wake_first_same; simp)+

lemma wake_first_Thread [simp]:
  "i < length ths \<Longrightarrow> (wake_first ths ! i = Thread x c) = (ths ! i = Thread x c)"
  using wake_first_nth [of i ths] by auto

lemma mutual_exclusion:
  assumes "inv_mutex s" "i < length (threads s)" "j < length (threads s)"
    "holds (threads s ! i)" "holds (threads s ! j)"
  shows "i = j"
  using assms by (auto simp: inv_mutex_def)

lemma inv_mutex_step:
  assumes "inv_mutex s" "act a s = Some s'"
  shows "inv_mutex s'"
  using assms(2)
  by (cases rule: act_cases)
    (insert assms(1), auto simp: inv_mutex_def nth_list_update nth_append)

lemma inv_worker_step:
  assumes "inv_worker s" "inv_sched s" "act a s = Some s'"
  shows "inv_worker s'"
  using assms(3)
  by (cases rule: act_cases)
    (insert assms(1,2), auto simp: inv_worker_def inv_sched_def nth_list_update nth_append)

lemma inv_sched_step:
  assumes "inv_sched s" "inv_mutex s" "act a s = Some s'"
  shows "inv_sched s'"
  using assms(3)
proof (cases rule: act_cases)
  case (S_spawn i t x)
  have only: "j = i" if "j < length (threads s)" "threads s ! j = Thread y (Some (u, S_spawn))"
    for j y u
    using mutual_exclusion [OF assms(2) that(1) S_spawn(1)] that(2) S_spawn(2) by simp
  have ths: "threads s' = (threads s @ [Worker B_lock])[i := Thread x (Some (t, S_push))]"
    and bg: "bgthread s' \<noteq> None"
    using S_spawn(3) by simp_all
  show ?thesis
    unfolding inv_sched_def
  proof (intro allI impI)
    fix j u pc
    assume j: "j < length (threads s')" and sch: "sched_of (threads s' ! j) = Some (u, pc)"
    have "pc \<noteq> S_spawn"
    proof
      assume pc: "pc = S_spawn"
      show False
      proof (cases "j = i")
        case True
        with sch pc ths S_spawn(1) show False by simp
      next
        case False
        with sch pc ths j have "j < length (threads s)" "\<exists>y. threads s ! j = Thread y (Some (u, S_spawn))"
          by (auto simp: nth_append nth_list_update split: if_splits)
        with only False show False by blast
      qed
    qed
    with bg show "(pc = S_spawn \<longrightarrow> bgthread s' = None) \<and>
        (pc = S_push \<or> pc = S_unlock \<or> pc = S_notify \<longrightarrow> bgthread s' \<noteq> None)"
      by simp
  qed
qed (insert assms(1), auto simp: inv_sched_def nth_list_update)

lemma in_flight_worker:
  assumes "inv_worker s" "i < length (threads s)" "is_bg (threads s ! i)"
  shows "in_flight s = taken (threads s ! i)"
  using assms by (auto simp: inv_worker_def in_flight_def)

lemma in_flight_other:
  assumes "inv_worker s" "i < length (threads s)" "\<not> is_bg (threads s ! i)"
    "threads s' = (threads s)[i := th]" "bgthread s' = bgthread s"
  shows "in_flight s' = in_flight s"
  using assms by (auto simp: inv_worker_def in_flight_def split: option.splits)

lemma in_flight_local:
  assumes "inv_worker s" "i < length (threads s)" "taken th = taken (threads s ! i)"
    "threads s' = (threads s)[i := th]" "bgthread s' = bgthread s"
  shows "in_flight s' = in_flight s"
  using assms
  by (auto simp: inv_worker_def in_flight_def nth_list_update split: option.splits)

lemma inv_queue_local:
  assumes "inv_queue s" "inv_worker s" "i < length (threads s)"
    "taken th = taken (threads s ! i)" "th = Worker B_front \<longrightarrow> queue s \<noteq> []"
    "threads s' = (threads s)[i := th]" "bgthread s' = bgthread s" "queue s' = queue s"
    "appended s' = appended s" "executed s' = executed s"
  shows "inv_queue s'"
proof -
  have "in_flight s' = in_flight s"
    by (rule in_flight_local [OF assms(2,3,4,6,7)])
  with assms(1,3,5-10) show ?thesis
    by (auto simp: inv_queue_def nth_list_update)
qed

lemma inv_queue_step:
  assumes "inv_queue s" "inv_worker s" "inv_sched s" "act a s = Some s'"
  shows "inv_queue s'"
  using assms(4)
proof (cases rule: act_cases)
  case (S_spawn i t x)
  with assms(3) have none: "bgthread s = None"
    by (auto simp: inv_sched_def)
  with assms(1) S_spawn show ?thesis
    by (auto simp: inv_queue_def in_flight_def nth_list_update nth_append)
next
  case (S_push i t x)
  with assms(3) have some: "bgthread s \<noteq> None"
    by (auto simp: inv_sched_def)
  have "in_flight s' = in_flight s"
    by (rule in_flight_local [OF assms(2) S_push(1), of "Thread x (Some (t, S_unlock))"])
      (simp_all add: S_push)
  with assms(1) some S_push show ?thesis
    by (auto simp: inv_queue_def nth_list_update)
next
  case (S_notify i t x)
  have w: "inv_worker (s\<lparr>threads := wake_first (threads s)\<rparr>)"
    using assms(2) by (auto simp: inv_worker_def)
  have "in_flight (s\<lparr>threads := wake_first (threads s)\<rparr>) = in_flight s"
    using assms(2) by (auto simp: in_flight_def inv_worker_def split: option.splits)
  moreover have "in_flight s' = in_flight (s\<lparr>threads := wake_first (threads s)\<rparr>)"
    by (rule in_flight_local [OF w, of i "Thread x None"]) (simp_all add: S_notify)
  ultimately show ?thesis
    using assms(1) S_notify by (auto simp: inv_queue_def nth_list_update)
next
  case (B_front i f q)
  have bg: "is_bg (threads s ! i)" using B_front by simp
  have only: "\<forall>j < length (threads s). j \<noteq> i \<longrightarrow> threads s ! j \<noteq> Worker B_front"
    using assms(2) bg B_front(1) by (auto simp: inv_worker_def)
  have w': "inv_worker s'"
    by (rule inv_worker_step [OF assms(2,3,4)])
  have "in_flight s = []"
    using in_flight_worker [OF assms(2) B_front(1) bg] B_front by simp
  moreover have "in_flight s' = [f]"
    using in_flight_worker [OF w', of i] B_front by simp
  ultimately show ?thesis
    using assms(1) B_front only by (auto simp: inv_queue_def nth_list_update)
next
  case (B_call i f)
  have bg: "is_bg (threads s ! i)" using B_call by simp
  have w': "inv_worker s'"
    by (rule inv_worker_step [OF assms(2,3,4)])
  have "in_flight s = [f]"
    using in_flight_worker [OF assms(2) B_call(1) bg] B_call by simp
  moreover have "in_flight s' = []"
    using in_flight_worker [OF w', of i] B_call by simp
  ultimately show ?thesis
    using assms(1) B_call by (auto simp: inv_queue_def nth_list_update)
next
  case (Call i t x)
  then show ?thesis
    by (intro inv_queue_local [OF assms(1,2), of i "Thread x (Some (t, S_lock))"]) simp_all
next
  case (Return i f)
  then show ?thesis
    by (intro inv_queue_local [OF assms(1,2), of i "Worker B_lock"]) simp_all
next
  case (Spurious i)
  then show ?thesis
    by (intro inv_queue_local [OF assms(1,2), of i "Worker B_lock"]) simp_all
next
  case (S_lock i t x)
  then show ?thesis
    by (intro inv_queue_local [OF assms(1,2), of i "Thread x (Some (t, S_test))"]) simp_all
next
  case (S_test i t x)
  then show ?thesis
    by (intro inv_queue_local [OF assms(1,2), of i "Thread x (Some (t, if bgthread s = None then S_spawn else S_push))"]) simp_all
next
  case (S_unlock i t x)
  then show ?thesis
    by (intro inv_queue_local [OF assms(1,2), of i "Thread x (Some (t, S_notify))"]) simp_all
next
  case (B_lock i)
  then show ?thesis
    by (intro inv_queue_local [OF assms(1,2), of i "Worker B_test"]) simp_all
next
  case (B_sleep i)
  then show ?thesis
    by (intro inv_queue_local [OF assms(1,2), of i "Worker B_wait"]) simp_all
next
  case (B_test i)
  then show ?thesis
    by (intro inv_queue_local [OF assms(1,2), of i "Worker B_front"]) simp_all
next
  case (B_unlock i f)
  then show ?thesis
    by (intro inv_queue_local [OF assms(1,2), of i "Worker (B_call f)"]) simp_all
next
  case (Refuse i t x)
  then show ?thesis
    by (intro inv_queue_local [OF assms(1,2), of i "Thread x None"]) simp_all
qed

lemma the_worker:
  assumes "inv_worker s" "i < length (threads s)" "is_bg (threads s ! i)"
  shows "bgthread s = Some i"
  using assms by (auto simp: inv_worker_def)

lemma no_waiter:
  assumes "inv_worker s" "i < length (threads s)" "is_bg (threads s ! i)"
    "threads s ! i \<noteq> Worker B_wait"
  shows "\<not> (\<exists>w < length (threads s). threads s ! w = Worker B_wait)"
proof
  assume "\<exists>w < length (threads s). threads s ! w = Worker B_wait"
  then obtain w where w: "w < length (threads s)" "threads s ! w = Worker B_wait" by blast
  then have "is_bg (threads s ! w)" by simp
  with assms(1) w(1) have "bgthread s = Some w" by (simp add: inv_worker_def)
  moreover from assms(1,2,3) have "bgthread s = Some i" by (simp add: inv_worker_def)
  ultimately have "w = i" by simp
  with w(2) assms(4) show False by simp
qed

lemma inv_wakeup_no_waiter:
  assumes "\<not> (\<exists>w < length (threads s). threads s ! w = Worker B_wait)"
  shows "inv_wakeup s"
  using assms unfolding inv_wakeup_def by blast

lemma inv_wakeup_local:
  assumes "inv_wakeup s" "i < length (threads s)" "threads s' = (threads s)[i := th]"
    "queue s' = queue s" "th \<noteq> Worker B_wait" "signalling (threads s ! i) \<longrightarrow> signalling th"
  shows "inv_wakeup s'"
  unfolding inv_wakeup_def
proof
  assume a: "(\<exists>w < length (threads s'). threads s' ! w = Worker B_wait) \<and> queue s' \<noteq> []"
  then obtain w where w: "w < length (threads s')" "threads s' ! w = Worker B_wait" by blast
  with assms(3,5) have "w \<noteq> i" by auto
  with w assms(3) have "w < length (threads s)" "threads s ! w = Worker B_wait" by auto
  with a assms(1,4) obtain j where j: "j < length (threads s)" "signalling (threads s ! j)"
    unfolding inv_wakeup_def by auto
  show "\<exists>i < length (threads s'). signalling (threads s' ! i)"
  proof (cases "j = i")
    case True
    with j assms(2,3,6) have "i < length (threads s')" "signalling (threads s' ! i)"
      by simp_all
    then show ?thesis by blast
  next
    case False
    with j assms(3) have "j < length (threads s')" "signalling (threads s' ! j)"
      by simp_all
    then show ?thesis by blast
  qed
qed

lemma inv_wakeup_signalling:
  assumes "i < length (threads s)" "signalling (threads s ! i)"
  shows "inv_wakeup s"
  using assms unfolding inv_wakeup_def by blast

lemma inv_wakeup_step:
  assumes "inv_wakeup s" "inv_worker s" "inv_sched s" "act a s = Some s'"
  shows "inv_wakeup s'"
  using assms(4)
proof (cases rule: act_cases)
  case (S_spawn i t x)
  have w': "inv_worker s'"
    by (rule inv_worker_step [OF assms(2,3,4)])
  have "length (threads s) < length (threads s')" "is_bg (threads s' ! length (threads s))"
    "threads s' ! length (threads s) \<noteq> Worker B_wait"
    using S_spawn by (simp_all add: nth_list_update nth_append)
  from no_waiter [OF w' this] show ?thesis
    by (rule inv_wakeup_no_waiter)
next
  case (S_push i t x)
  then have "i < length (threads s')" "signalling (threads s' ! i)"
    by simp_all
  then show ?thesis by (rule inv_wakeup_signalling)
next
  case (S_notify i t x)
  have one: "\<forall>a b. a < length (threads s) \<and> b < length (threads s) \<and>
      threads s ! a = Worker B_wait \<and> threads s ! b = Worker B_wait \<longrightarrow> a = b"
  proof (intro allI impI)
    fix a b
    assume ab: "a < length (threads s) \<and> b < length (threads s) \<and>
      threads s ! a = Worker B_wait \<and> threads s ! b = Worker B_wait"
    then have "is_bg (threads s ! a)" "is_bg (threads s ! b)"
      and "a < length (threads s)" "b < length (threads s)" by simp_all
    then have "bgthread s = Some a" "bgthread s = Some b"
      using the_worker [OF assms(2)] by blast+
    then show "a = b" by simp
  qed
  have "\<not> (\<exists>w < length (threads s'). threads s' ! w = Worker B_wait)"
  proof
    assume "\<exists>w < length (threads s'). threads s' ! w = Worker B_wait"
    then obtain w where w: "w < length (threads s')" "threads s' ! w = Worker B_wait" by blast
    with S_notify have "w \<noteq> i" by auto
    with w S_notify have "w < length (threads s)" "wake_first (threads s) ! w = Worker B_wait"
      by simp_all
    with wake_first_unique [OF one, of w] show False by simp
  qed
  then show ?thesis by (rule inv_wakeup_no_waiter)
next
  case (B_sleep i)
  then show ?thesis by (simp add: inv_wakeup_def)
next
  case (B_front i f q)
  have w': "inv_worker s'"
    by (rule inv_worker_step [OF assms(2,3,4)])
  have "i < length (threads s')" "is_bg (threads s' ! i)" "threads s' ! i \<noteq> Worker B_wait"
    using B_front by simp_all
  from no_waiter [OF w' this] show ?thesis
    by (rule inv_wakeup_no_waiter)
next
  case (Call i t x)
  then show ?thesis
    by (intro inv_wakeup_local [OF assms(1), of i _ "Thread x (Some (t, S_lock))"]) simp_all
next
  case (Return i f)
  then show ?thesis
    by (intro inv_wakeup_local [OF assms(1), of i _ "Worker B_lock"]) simp_all
next
  case (Spurious i)
  then show ?thesis
    by (intro inv_wakeup_local [OF assms(1), of i _ "Worker B_lock"]) simp_all
next
  case (S_lock i t x)
  then show ?thesis
    by (intro inv_wakeup_local [OF assms(1), of i _ "Thread x (Some (t, S_test))"]) simp_all
next
  case (S_test i t x)
  then show ?thesis
    by (intro inv_wakeup_local [OF assms(1), of i _ "Thread x (Some (t, if bgthread s = None then S_spawn else S_push))"]) simp_all
next
  case (S_unlock i t x)
  then show ?thesis
    by (intro inv_wakeup_local [OF assms(1), of i _ "Thread x (Some (t, S_notify))"]) simp_all
next
  case (B_lock i)
  then show ?thesis
    by (intro inv_wakeup_local [OF assms(1), of i _ "Worker B_test"]) simp_all
next
  case (B_test i)
  then show ?thesis
    by (intro inv_wakeup_local [OF assms(1), of i _ "Worker B_front"]) simp_all
next
  case (B_unlock i f)
  then show ?thesis
    by (intro inv_wakeup_local [OF assms(1), of i _ "Worker (B_call f)"]) simp_all
next
  case (B_call i f)
  then show ?thesis
    by (intro inv_wakeup_local [OF assms(1), of i _ "Thread (Task f) None"]) simp_all
next
  case (Refuse i t x)
  then show ?thesis
    by (intro inv_wakeup_local [OF assms(1), of i _ "Thread x None"]) simp_all
qed

lemma sum_list_map_update:
  fixes g :: "'a \<Rightarrow> 'b::comm_monoid_add"
  shows "i < length xs \<Longrightarrow> sum_list (map g (xs[i := x])) + g (xs ! i) = sum_list (map g xs) + g x"
proof (induction xs arbitrary: i)
  case Nil
  then show ?case by simp
next
  case (Cons y ys)
  show ?case
  proof (cases i)
    case 0
    then show ?thesis by (simp add: ac_simps)
  next
    case (Suc j)
    with Cons.prems have "j < length ys" by simp
    from Cons.IH [OF this] Suc show ?thesis
      by (simp add: add.assoc)
  qed
qed

lemma inv_history_local:
  assumes "inv_history s" "i < length (threads s)" "threads s' = (threads s)[i := th]"
    "mset (requested s') + unappended (threads s ! i) + (mset (appended s) + mset (failed s)) =
       mset (requested s) + (mset (appended s') + mset (failed s')) + unappended th"
    "mset (appended s') + unsignalled (threads s ! i) + mset (signalled s) =
       mset (appended s) + mset (signalled s') + unsignalled th"
  shows "inv_history s'"
proof -
  let ?U = "sum_list (map unappended (threads s))" and ?U' = "sum_list (map unappended (threads s'))"
  let ?V = "sum_list (map unsignalled (threads s))" and ?V' = "sum_list (map unsignalled (threads s'))"
  let ?A = "mset (appended s) + mset (failed s)" and ?A' = "mset (appended s') + mset (failed s')"
  have U: "?U' + unappended (threads s ! i) = ?U + unappended th"
    unfolding assms(3) by (rule sum_list_map_update [OF assms(2)])
  have V: "?V' + unsignalled (threads s ! i) = ?V + unsignalled th"
    unfolding assms(3) by (rule sum_list_map_update [OF assms(2)])
  from assms(1) have R: "mset (requested s) = ?A + ?U"
    and A: "mset (appended s) = mset (signalled s) + ?V"
    by (simp_all add: inv_history_def)
  have "mset (requested s') + (unappended (threads s ! i) + ?A) =
      (?A' + ?U') + (unappended (threads s ! i) + ?A)"
  proof -
    have "mset (requested s') + (unappended (threads s ! i) + ?A) =
        mset (requested s) + ?A' + unappended th"
      using assms(4) by (simp only: add.assoc)
    also have "\<dots> = (?A + ?U) + ?A' + unappended th"
      by (simp only: R)
    also have "\<dots> = ?A + ?A' + (?U + unappended th)"
      by (simp only: ac_simps)
    also have "\<dots> = ?A + ?A' + (?U' + unappended (threads s ! i))"
      by (simp only: U)
    also have "\<dots> = (?A' + ?U') + (unappended (threads s ! i) + ?A)"
      by (simp only: ac_simps)
    finally show ?thesis .
  qed
  then have 1: "mset (requested s') = ?A' + ?U'"
    by (rule add_right_imp_eq)
  have "mset (appended s') + (unsignalled (threads s ! i) + mset (signalled s)) =
      (mset (signalled s') + ?V') + (unsignalled (threads s ! i) + mset (signalled s))"
  proof -
    have "mset (appended s') + (unsignalled (threads s ! i) + mset (signalled s)) =
        mset (appended s) + mset (signalled s') + unsignalled th"
      using assms(5) by (simp only: add.assoc)
    also have "\<dots> = mset (signalled s) + mset (signalled s') + (?V + unsignalled th)"
      by (simp only: A ac_simps)
    also have "\<dots> = mset (signalled s) + mset (signalled s') + (?V' + unsignalled (threads s ! i))"
      by (simp only: V)
    also have "\<dots> = (mset (signalled s') + ?V') + (unsignalled (threads s ! i) + mset (signalled s))"
      by (simp only: ac_simps)
    finally show ?thesis .
  qed
  then have 2: "mset (appended s') = mset (signalled s') + ?V'"
    by (rule add_right_imp_eq)
  from 1 2 show ?thesis by (simp add: inv_history_def)
qed

lemma inv_history_step:
  assumes "inv_history s" "act a s = Some s'"
  shows "inv_history s'"
  using assms(2)
proof (cases rule: act_cases)
  case (S_spawn i t x)
  let ?s1 = "s\<lparr>threads := threads s @ [Worker B_lock]\<rparr>"
  have 1: "inv_history ?s1"
    using assms(1) by (simp add: inv_history_def)
  show ?thesis
    by (rule inv_history_local [OF 1, of i _ "Thread x (Some (t, S_push))"])
      (use S_spawn in \<open>simp_all add: nth_append\<close>)
next
  case (S_notify i t x)
  let ?s1 = "s\<lparr>threads := wake_first (threads s)\<rparr>"
  have 1: "inv_history ?s1"
    using assms(1) by (simp add: inv_history_def wake_first_map)
  have old: "wake_first (threads s) ! i = Thread x (Some (t, S_notify))"
    using S_notify by simp
  show ?thesis
    by (rule inv_history_local [OF 1, of i _ "Thread x None"])
      (simp_all add: S_notify old)
next
  case (Call i t x)
  then show ?thesis
    by (intro inv_history_local [OF assms(1), of i _ "Thread x (Some (t, S_lock))"]) simp_all
next
  case (Return i f)
  then show ?thesis
    by (intro inv_history_local [OF assms(1), of i _ "Worker B_lock"]) simp_all
next
  case (Spurious i)
  then show ?thesis
    by (intro inv_history_local [OF assms(1), of i _ "Worker B_lock"]) simp_all
next
  case (S_lock i t x)
  then show ?thesis
    by (intro inv_history_local [OF assms(1), of i _ "Thread x (Some (t, S_test))"]) simp_all
next
  case (S_test i t x)
  then show ?thesis
    by (intro inv_history_local [OF assms(1), of i _ "Thread x (Some (t, if bgthread s = None then S_spawn else S_push))"]) simp_all
next
  case (S_push i t x)
  then show ?thesis
    by (intro inv_history_local [OF assms(1), of i _ "Thread x (Some (t, S_unlock))"]) simp_all
next
  case (S_unlock i t x)
  then show ?thesis
    by (intro inv_history_local [OF assms(1), of i _ "Thread x (Some (t, S_notify))"]) simp_all
next
  case (B_lock i)
  then show ?thesis
    by (intro inv_history_local [OF assms(1), of i _ "Worker B_test"]) simp_all
next
  case (B_sleep i)
  then show ?thesis
    by (intro inv_history_local [OF assms(1), of i _ "Worker B_wait"]) simp_all
next
  case (B_test i)
  then show ?thesis
    by (intro inv_history_local [OF assms(1), of i _ "Worker B_front"]) simp_all
next
  case (B_front i f q)
  then show ?thesis
    by (intro inv_history_local [OF assms(1), of i _ "Worker (B_unlock f)"]) simp_all
next
  case (B_unlock i f)
  then show ?thesis
    by (intro inv_history_local [OF assms(1), of i _ "Worker (B_call f)"]) simp_all
next
  case (B_call i f)
  then show ?thesis
    by (intro inv_history_local [OF assms(1), of i _ "Thread (Task f) None"]) simp_all
next
  case (Refuse i t x)
  then show ?thesis
    by (intro inv_history_local [OF assms(1), of i _ "Thread x None"]) simp_all
qed

lemma invariant_init: "invariant (init k)"
proof -
  have "sum_list (map unappended (replicate k (Thread Engine None))) = {#}"
    "sum_list (map unsignalled (replicate k (Thread Engine None))) = {#}"
    by (induction k) simp_all
  then show ?thesis
    by (simp add: invariant_def init_def inv_mutex_def inv_worker_def inv_sched_def inv_queue_def
        inv_wakeup_def inv_history_def in_flight_def)
qed

lemma invariant_step:
  assumes "invariant s" "act a s = Some s'"
  shows "invariant s'"
  using assms inv_mutex_step [of s a s'] inv_worker_step [of s a s'] inv_sched_step [of s a s']
    inv_queue_step [of s a s'] inv_wakeup_step [of s a s'] inv_history_step [of s a s']
  by (simp add: invariant_def)

lemma invariant_run:
  "invariant s \<Longrightarrow> run as s = Some s' \<Longrightarrow> invariant s'"
proof (induction as arbitrary: s)
  case Nil
  then show ?case by simp
next
  case (Cons a as)
  from Cons.prems(2) obtain s1 where a: "act a s = Some s1" and r: "run as s1 = Some s'"
    by (auto split: option.splits)
  from invariant_step [OF Cons.prems(1) a] r show ?case
    by (rule Cons.IH)
qed

lemma reachable_invariant: "run as (init k) = Some s \<Longrightarrow> invariant s"
  by (rule invariant_run [OF invariant_init])

lemma wake_first_weight:
  "sum_list (map thread_weight (wake_first ths)) \<le> sum_list (map thread_weight ths) + 2"
  by (induction ths) auto

lemma weight_update:
  assumes "i < length ths"
  shows "sum_list (map thread_weight (ths[i := th])) + thread_weight (ths ! i) =
    sum_list (map thread_weight ths) + thread_weight th"
  by (rule sum_list_map_update [OF assms])

lemma thread_weight_sched:
  "thread_weight (Thread x (Some (t, pc))) =
     (case x of Engine \<Rightarrow> 0 | Task f \<Rightarrow> 5) + sched_weight pc"
  "thread_weight (Thread x None) = (case x of Engine \<Rightarrow> 0 | Task f \<Rightarrow> 4)"
  by (cases x; simp)+

lemma step_weight:
  assumes "act (Step i) s = Some s'"
  shows "weight s' < weight s"
  using assms
proof (cases rule: act_cases)
  case (S_spawn i t x)
  from weight_update [of i "threads s @ [Worker B_lock]" "Thread x (Some (t, S_push))"] S_spawn
  show ?thesis
    by (simp add: weight_def nth_append thread_weight_sched)
next
  case (S_notify i t x)
  have old: "wake_first (threads s) ! i = Thread x (Some (t, S_notify))"
    using S_notify by simp
  from weight_update [of i "wake_first (threads s)" "Thread x None"] S_notify
    wake_first_weight [of "threads s"]
  show ?thesis
    by (cases x) (simp_all add: weight_def old)
next
  case (Call i t x)
  then show ?thesis by simp
next
  case (Spurious i)
  then show ?thesis by simp
next
  case (Return i f)
  from weight_update [of i "threads s" "Worker B_lock"] Return
  show ?thesis by (simp add: weight_def)
next
  case (S_lock i t x)
  from weight_update [of i "threads s" "Thread x (Some (t, S_test))"] S_lock
  show ?thesis by (simp add: weight_def thread_weight_sched)
next
  case (S_test i t x)
  from weight_update [of i "threads s"
      "Thread x (Some (t, if bgthread s = None then S_spawn else S_push))"] S_test
  show ?thesis by (cases "bgthread s") (simp_all add: weight_def thread_weight_sched)
next
  case (S_push i t x)
  from weight_update [of i "threads s" "Thread x (Some (t, S_unlock))"] S_push
  show ?thesis by (simp add: weight_def thread_weight_sched)
next
  case (S_unlock i t x)
  from weight_update [of i "threads s" "Thread x (Some (t, S_notify))"] S_unlock
  show ?thesis by (simp add: weight_def thread_weight_sched)
next
  case (B_lock i)
  from weight_update [of i "threads s" "Worker B_test"] B_lock
  show ?thesis by (simp add: weight_def)
next
  case (B_sleep i)
  from weight_update [of i "threads s" "Worker B_wait"] B_sleep
  show ?thesis by (simp add: weight_def)
next
  case (B_test i)
  from weight_update [of i "threads s" "Worker B_front"] B_test
  show ?thesis by (simp add: weight_def)
next
  case (B_front i f q)
  from weight_update [of i "threads s" "Worker (B_unlock f)"] B_front
  show ?thesis by (simp add: weight_def)
next
  case (B_unlock i f)
  from weight_update [of i "threads s" "Worker (B_call f)"] B_unlock
  show ?thesis by (simp add: weight_def)
next
  case (B_call i f)
  from weight_update [of i "threads s" "Thread (Task f) None"] B_call
  show ?thesis by (simp add: weight_def)
next
  case (Refuse j t x)
  then show ?thesis by simp
qed

lemma steps_bounded:
  "run (map Step is) s = Some s' \<Longrightarrow> weight s' + length is \<le> weight s"
proof (induction "is" arbitrary: s)
  case Nil
  then show ?case by simp
next
  case (Cons i "is")
  from Cons.prems obtain s1 where a: "act (Step i) s = Some s1"
    and r: "run (map Step is) s1 = Some s'"
    by (auto split: option.splits)
  from Cons.IH [OF r] step_weight [OF a] show ?case by simp
qed

lemma step_None_iff:
  "step i s = None \<longleftrightarrow>
     \<not> i < length (threads s) \<or> threads s ! i = Thread Engine None \<or>
     threads s ! i = Worker B_wait \<or>
     (mu s \<noteq> None \<and>
        (threads s ! i = Worker B_lock \<or> (\<exists>x t. threads s ! i = Thread x (Some (t, S_lock))))) \<or>
     (threads s ! i = Worker B_front \<and> queue s = [])"
proof (cases "i < length (threads s)")
  case False
  then show ?thesis by (simp add: step_def)
next
  case True
  show ?thesis
  proof (cases "threads s ! i")
    case (Worker pc)
    with True show ?thesis
      by (cases pc) (auto simp: step_def split: list.splits)
  next
    case (Thread x c)
    show ?thesis
    proof (cases c)
      case None
      with True Thread show ?thesis
        by (cases x) (auto simp: step_def)
    next
      case (Some a)
      obtain t pc where "a = (t, pc)" by (cases a)
      with True Thread Some show ?thesis
        by (cases pc) (auto simp: step_def)
    qed
  qed
qed

lemma holder_can_step:
  assumes "invariant s" "mu s = Some j"
  shows "step j s \<noteq> None"
proof -
  from assms have j: "j < length (threads s)" and h: "holds (threads s ! j)"
    by (auto simp: invariant_def inv_mutex_def)
  from assms(1) j have q: "threads s ! j = Worker B_front \<longrightarrow> queue s \<noteq> []"
    by (auto simp: invariant_def inv_queue_def)
  from h have "threads s ! j \<noteq> Thread Engine None" "threads s ! j \<noteq> Worker B_wait"
    "threads s ! j \<noteq> Worker B_lock" "\<forall>x t. threads s ! j \<noteq> Thread x (Some (t, S_lock))"
    by auto
  with j q show ?thesis
    by (simp add: step_None_iff)
qed

lemma quiescent_threads:
  assumes "invariant s" "quiescent s"
  shows "mu s = None"
    and "\<forall>i < length (threads s). threads s ! i = Thread Engine None \<or> threads s ! i = Worker B_wait"
proof -
  show mu: "mu s = None"
  proof (rule ccontr)
    assume "mu s \<noteq> None"
    then obtain j where j: "mu s = Some j" by auto
    with assms(1) have "j < length (threads s)"
      by (auto simp: invariant_def inv_mutex_def)
    with assms(2) holder_can_step [OF assms(1) j] show False
      by (simp add: quiescent_def)
  qed
  show "\<forall>i < length (threads s). threads s ! i = Thread Engine None \<or> threads s ! i = Worker B_wait"
  proof (intro allI impI)
    fix i
    assume i: "i < length (threads s)"
    with assms(2) have n: "step i s = None" by (simp add: quiescent_def)
    from assms(1) i have "threads s ! i = Worker B_front \<longrightarrow> queue s \<noteq> []"
      by (auto simp: invariant_def inv_queue_def)
    with n i mu show "threads s ! i = Thread Engine None \<or> threads s ! i = Worker B_wait"
      by (auto simp: step_None_iff)
  qed
qed

lemma sum_list_all_zero:
  fixes g :: "'a \<Rightarrow> 'b::comm_monoid_add"
  shows "\<forall>i < length xs. g (xs ! i) = 0 \<Longrightarrow> sum_list (map g xs) = 0"
proof (induction xs)
  case Nil
  then show ?case by simp
next
  case (Cons x xs)
  from Cons.prems have "g x = 0" by auto
  moreover from Cons.prems have "\<forall>i < length xs. g (xs ! i) = 0" by auto
  ultimately show ?case using Cons.IH by simp
qed

lemma quiescent_done:
  assumes "invariant s" "quiescent s"
  shows "queue s = []" "executed s = appended s"
    "mset (appended s) + mset (failed s) = mset (requested s)"
    "mset (signalled s) = mset (appended s)"
proof -
  note th = quiescent_threads(2) [OF assms]
  have idle: "sched_of (threads s ! i) = None" "taken (threads s ! i) = []"
    "\<not> signalling (threads s ! i)" if "i < length (threads s)" for i
    using th that by (auto simp del: sched_of_eq_Some)
  have "sum_list (map unappended (threads s)) = 0" "sum_list (map unsignalled (threads s)) = 0"
    using idle(1) by (intro sum_list_all_zero; simp del: sched_of_eq_Some)+
  with assms(1) show "mset (appended s) + mset (failed s) = mset (requested s)"
    "mset (signalled s) = mset (appended s)"
    by (simp_all add: invariant_def inv_history_def)
  from assms(1) have w: "inv_worker s" and q: "inv_queue s" and k: "inv_wakeup s"
    by (simp_all add: invariant_def)
  have fl: "in_flight s = []"
  proof (cases "bgthread s")
    case None
    then show ?thesis by (simp add: in_flight_def)
  next
    case (Some w')
    with w have "w' < length (threads s)" by (simp add: inv_worker_def)
    with Some idle(2) show ?thesis by (simp add: in_flight_def)
  qed
  show e: "queue s = []"
  proof (cases "bgthread s")
    case None
    with q fl show ?thesis by (auto simp: inv_queue_def)
  next
    case (Some w')
    with w have w': "w' < length (threads s)" "is_bg (threads s ! w')"
      by (simp_all add: inv_worker_def)
    with th have "threads s ! w' = Worker B_wait" by auto
    with w'(1) have "\<exists>w < length (threads s). threads s ! w = Worker B_wait" by blast
    with k idle(3) show ?thesis
      unfolding inv_wakeup_def by blast
  qed
  from q fl e show "executed s = appended s" by (auto simp: inv_queue_def)
qed

lemma can_finish:
  assumes "invariant s"
  shows "\<exists>is s'. run (map Step is) s = Some s' \<and> quiescent s'"
  using assms
proof (induction "weight s" arbitrary: s rule: less_induct)
  case less
  show ?case
  proof (cases "quiescent s")
    case True
    then have "run (map Step []) s = Some s \<and> quiescent s" by simp
    then show ?thesis by blast
  next
    case False
    then obtain i s1 where a: "act (Step i) s = Some s1"
      by (auto simp: quiescent_def)
    from less.hyps [OF step_weight [OF a] invariant_step [OF less.prems a]]
    obtain js s' where "run (map Step js) s1 = Some s'" "quiescent s'" by blast
    with a have "run (map Step (i # js)) s = Some s' \<and> quiescent s'" by simp
    then show ?thesis by blast
  qed
qed

lemma steps_keep_requests:
  "run (map Step is) s = Some s' \<Longrightarrow> requested s' = requested s \<and> failed s' = failed s"
proof (induction "is" arbitrary: s)
  case Nil
  then show ?case by simp
next
  case (Cons i "is")
  from Cons.prems obtain s1 where a: "act (Step i) s = Some s1"
    and r: "run (map Step is) s1 = Some s'"
    by (auto split: option.splits)
  from a have "requested s1 = requested s \<and> failed s1 = failed s"
    by (cases rule: act_cases) simp_all
  with Cons.IH [OF r] show ?case by simp
qed

lemma one_running:
  assumes "invariant s" "i < length (threads s)" "j < length (threads s)"
    "is_bg (threads s ! i)" "is_bg (threads s ! j)"
  shows "i = j"
proof -
  from assms(1) have w: "inv_worker s" by (simp add: invariant_def)
  from the_worker [OF w assms(2,4)] the_worker [OF w assms(3,5)] show ?thesis by simp
qed

lemma filter_one:
  assumes "w < length xs" "\<forall>i < length xs. P (xs ! i) = (i = w)"
  shows "length (filter P xs) = 1"
proof -
  have xs: "xs = take w xs @ xs ! w # drop (Suc w) xs"
    by (rule id_take_nth_drop [OF assms(1)])
  have a: "filter P (take w xs) = []"
  proof -
    have "\<not> P x" if "x \<in> set (take w xs)" for x
    proof -
      from that obtain i where "i < length (take w xs)" "take w xs ! i = x"
        by (auto simp: in_set_conv_nth)
      with assms show ?thesis by auto
    qed
    then show ?thesis by (simp add: filter_empty_conv)
  qed
  have b: "filter P (drop (Suc w) xs) = []"
  proof -
    have "\<not> P x" if "x \<in> set (drop (Suc w) xs)" for x
    proof -
      from that obtain i where i: "i < length (drop (Suc w) xs)" "drop (Suc w) xs ! i = x"
        by (auto simp: in_set_conv_nth)
      then have "Suc w + i < length xs" "xs ! (Suc w + i) = x" by auto
      with assms(2) show ?thesis by auto
    qed
    then show ?thesis by (simp add: filter_empty_conv)
  qed
  have c: "P (xs ! w)" using assms by simp
  have "filter P xs = filter P (take w xs) @ filter P [xs ! w] @ filter P (drop (Suc w) xs)"
    by (subst xs) simp
  with a b c show ?thesis by simp
qed

lemma filter_none:
  assumes "\<forall>i < length xs. \<not> P (xs ! i)"
  shows "length (filter P xs) = 0"
  using assms by (auto simp: filter_empty_conv in_set_conv_nth)

lemma background_threads:
  assumes "invariant s"
  shows "length (filter is_bg (threads s)) = spawned s"
proof -
  from assms have w: "inv_worker s" by (simp add: invariant_def)
  show ?thesis
  proof (cases "bgthread s")
    case None
    with w have "\<forall>i < length (threads s). \<not> is_bg (threads s ! i)" "spawned s = 0"
      by (simp_all add: inv_worker_def)
    with filter_none [of "threads s" is_bg] show ?thesis by simp
  next
    case (Some b)
    with w have "b < length (threads s)" "\<forall>i < length (threads s). is_bg (threads s ! i) = (i = b)"
      "spawned s = 1"
      by (auto simp: inv_worker_def)
    with filter_one [of b "threads s" is_bg] show ?thesis by simp
  qed
qed

lemma Schedule_alone:
  assumes "i < length (threads s)" "threads s ! i = Thread x (Some (t, S_lock))" "mu s = None"
  shows "\<exists>n \<le> 6. \<exists>s'. run (replicate n (Step i)) s = Some s' \<and>
      threads s' ! i = Thread x None \<and> appended s' = appended s @ [t] \<and>
      queue s' = queue s @ [t] \<and> executed s' = executed s \<and>
      signalled s' = signalled s @ [t] \<and> mu s' = None"
proof (cases "bgthread s")
  case None
  have "\<exists>s'. run (replicate 6 (Step i)) s = Some s' \<and>
      threads s' ! i = Thread x None \<and> appended s' = appended s @ [t] \<and>
      queue s' = queue s @ [t] \<and> executed s' = executed s \<and>
      signalled s' = signalled s @ [t] \<and> mu s' = None"
    using assms None
    by (simp add: eval_nat_numeral step_def set_thread_def nth_append)
  then show ?thesis by (intro exI [of _ 6]) simp
next
  case (Some b)
  have "\<exists>s'. run (replicate 5 (Step i)) s = Some s' \<and>
      threads s' ! i = Thread x None \<and> appended s' = appended s @ [t] \<and>
      queue s' = queue s @ [t] \<and> executed s' = executed s \<and>
      signalled s' = signalled s @ [t] \<and> mu s' = None"
    using assms Some
    by (simp add: eval_nat_numeral step_def set_thread_def)
  then show ?thesis by (intro exI [of _ 5]) simp
qed

lemma is_running_is_bg: "is_running th \<Longrightarrow> is_bg th"
  by (cases th) auto

lemma member_le_sum_mset:
  fixes g :: "'a \<Rightarrow> 'b multiset"
  shows "i < length xs \<Longrightarrow> g (xs ! i) \<subseteq># sum_list (map g xs)"
proof (induction xs arbitrary: i)
  case Nil
  then show ?case by simp
next
  case (Cons x xs)
  show ?case
  proof (cases i)
    case 0
    then show ?thesis by simp
  next
    case (Suc j)
    with Cons.prems have "j < length xs" by simp
    from Cons.IH [OF this] Suc show ?thesis
      by (simp add: subset_mset.add_increasing)
  qed
qed

lemma in_call_requested:
  assumes "invariant s" "i < length (threads s)" "threads s ! i = Thread x (Some (t, S_spawn))"
  shows "requested s \<noteq> []"
proof -
  from member_le_sum_mset [OF assms(2), of unappended] assms(3)
  have "{#t#} \<subseteq># sum_list (map unappended (threads s))"
    by (simp del: sched_of_eq_Some)
  then have "t \<in># sum_list (map unappended (threads s))"
    by (simp add: mset_subset_eq_insertD)
  moreover from assms(1) have
    "mset (requested s) =
       mset (appended s) + mset (failed s) + sum_list (map unappended (threads s))"
    by (simp add: invariant_def inv_history_def)
  ultimately have "t \<in># mset (requested s)" by simp
  then show ?thesis by auto
qed

lemma lazy_step:
  assumes "invariant s" "bgthread s \<noteq> None \<longrightarrow> requested s \<noteq> []" "act a s = Some s'"
  shows "bgthread s' \<noteq> None \<longrightarrow> requested s' \<noteq> []"
  using assms(3)
proof (cases rule: act_cases)
  case (S_spawn i t x)
  from in_call_requested [OF assms(1) S_spawn(1,2)] S_spawn(3) show ?thesis by simp
qed (insert assms(2), auto)

lemma lazy_run:
  "invariant s \<Longrightarrow> bgthread s \<noteq> None \<longrightarrow> requested s \<noteq> [] \<Longrightarrow> run as s = Some s' \<Longrightarrow>
     bgthread s' \<noteq> None \<longrightarrow> requested s' \<noteq> []"
proof (induction as arbitrary: s)
  case Nil
  then show ?case by simp
next
  case (Cons a as)
  from Cons.prems(3) obtain s1 where a: "act a s = Some s1" and r: "run as s1 = Some s'"
    by (auto split: option.splits)
  from invariant_step [OF Cons.prems(1) a] lazy_step [OF Cons.prems(1,2) a] r show ?case
    by (rule Cons.IH)
qed

lemma notify_wakes:
  assumes "invariant s" "i < length (threads s)" "threads s ! i = Thread x (Some (t, S_notify))"
  shows "\<forall>w < length (threads s). (wake_first (threads s))[i := Thread x None] ! w \<noteq> Worker B_wait"
proof (intro allI impI)
  fix w
  assume w: "w < length (threads s)"
  from assms(1) have iw: "inv_worker s" by (simp add: invariant_def)
  have one: "\<forall>a b. a < length (threads s) \<and> b < length (threads s) \<and>
      threads s ! a = Worker B_wait \<and> threads s ! b = Worker B_wait \<longrightarrow> a = b"
  proof (intro allI impI)
    fix a b
    assume ab: "a < length (threads s) \<and> b < length (threads s) \<and>
      threads s ! a = Worker B_wait \<and> threads s ! b = Worker B_wait"
    then have "is_bg (threads s ! a)" "is_bg (threads s ! b)"
      and "a < length (threads s)" "b < length (threads s)" by simp_all
    then have "bgthread s = Some a" "bgthread s = Some b"
      using the_worker [OF iw] by blast+
    then show "a = b" by simp
  qed
  show "(wake_first (threads s))[i := Thread x None] ! w \<noteq> Worker B_wait"
  proof (cases "w = i")
    case True
    with w show ?thesis by simp
  next
    case False
    with wake_first_unique [OF one w] show ?thesis by simp
  qed
qed

lemma failed_run:
  "run as s = Some s' \<Longrightarrow> \<forall>i. Refuse i \<notin> set as \<Longrightarrow> failed s' = failed s"
proof (induction as arbitrary: s)
  case Nil
  then show ?case by simp
next
  case (Cons a as)
  from Cons.prems(1) obtain s1 where a: "act a s = Some s1" and r: "run as s1 = Some s'"
    by (auto split: option.splits)
  from a Cons.prems(2) have "failed s1 = failed s"
    by (cases rule: act_cases) auto
  with Cons.IH [OF r] Cons.prems(2) show ?case by simp
qed

lemma Refuse_only_creating:
  assumes "invariant s" "act (Refuse i) s = Some s'"
  shows "bgthread s = None \<and> (\<exists>t. threads s ! i = Thread Engine (Some (t, S_spawn)))"
  using assms(2)
proof (cases rule: act_cases)
  case (Refuse j t x)
  then have i: "i < length (threads s)" and th: "threads s ! i = Thread x (Some (t, S_spawn))"
    by simp_all
  from assms(1) have "inv_sched s" "inv_worker s" by (simp_all add: invariant_def)
  with i th have n: "bgthread s = None" and "is_bg (threads s ! i) = (bgthread s = Some i)"
    by (auto simp: inv_sched_def inv_worker_def)
  with th have "x = Engine" by simp
  with n th show ?thesis by simp
qed simp_all

lemma Schedule_alone_refused:
  assumes "i < length (threads s)" "threads s ! i = Thread x (Some (t, S_lock))" "mu s = None"
    "bgthread s = None"
  shows "\<exists>s'. run [Step i, Step i, Refuse i] s = Some s' \<and>
      threads s' ! i = Thread x None \<and> appended s' = appended s \<and> queue s' = queue s \<and>
      executed s' = executed s \<and> signalled s' = signalled s \<and> failed s' = failed s @ [t] \<and>
      mu s' = None \<and> bgthread s' = None \<and> spawned s' = spawned s"
  using assms by (simp add: step_def set_thread_def)

text \<open>
  C1. In every state the threads can reach from the start, with any number of threads of
  the engine and any interleaving of calls of \<open>Schedule\<close>, statements, spurious wake-ups
  and failures to create the thread: the tasks appended to the queue are the tasks
  \<open>BGThread\<close> has called, in the order it called them, then the task it has taken and
  not called yet, then the queue (so tasks are called in the order they were appended, none
  twice and none skipped); every requested task is appended, or its call was left by the
  exception, or its call has not reached \<^verbatim>\<open>push_back\<close> yet; no task is called that
  was not requested, and none whose call was left by the exception; there is at most one
  background thread, and so at most one thread inside a task. When no thread can execute a
  statement, the tasks called are exactly the requested tasks whose call was not left by
  the exception, each once. The statements that can still be executed without a new call
  are bounded by \<open>weight\<close>, and some sequence of them leads to such a state. While the
  creation of the thread never fails, no call is left by an exception, and then every
  requested task is called exactly once.
\<close>

theorem tasks_run_once_in_order:
  assumes "run as (init k) = Some s"
  shows "appended s = executed s @ in_flight s @ queue s \<and>
    mset (requested s) =
      mset (appended s) + mset (failed s) + sum_list (map unappended (threads s)) \<and>
    mset (executed s) + mset (failed s) \<subseteq># mset (requested s) \<and>
    (\<forall>i < length (threads s). \<forall>j < length (threads s).
       is_bg (threads s ! i) \<and> is_bg (threads s ! j) \<longrightarrow> i = j) \<and>
    (\<forall>i < length (threads s). \<forall>j < length (threads s).
       is_running (threads s ! i) \<and> is_running (threads s ! j) \<longrightarrow> i = j) \<and>
    (quiescent s \<longrightarrow>
       executed s = appended s \<and> mset (executed s) + mset (failed s) = mset (requested s)) \<and>
    (\<forall>is s'. run (map Step is) s = Some s' \<longrightarrow> length is \<le> weight s) \<and>
    (\<exists>is s'. run (map Step is) s = Some s' \<and> quiescent s' \<and> executed s' = appended s' \<and>
       mset (executed s') + mset (failed s) = mset (requested s)) \<and>
    ((\<forall>i. Refuse i \<notin> set as) \<longrightarrow> failed s = [])"
proof -
  note inv = reachable_invariant [OF assms]
  from inv have q: "appended s = executed s @ in_flight s @ queue s"
    by (simp add: invariant_def inv_queue_def)
  from inv have h: "mset (requested s) =
      mset (appended s) + mset (failed s) + sum_list (map unappended (threads s))"
    by (simp add: invariant_def inv_history_def)
  have sub: "mset (executed s) + mset (failed s) \<subseteq># mset (requested s)"
    unfolding h q by simp
  have bg: "\<forall>i < length (threads s). \<forall>j < length (threads s).
       is_bg (threads s ! i) \<and> is_bg (threads s ! j) \<longrightarrow> i = j"
    using one_running [OF inv] by blast
  then have rn: "\<forall>i < length (threads s). \<forall>j < length (threads s).
       is_running (threads s ! i) \<and> is_running (threads s ! j) \<longrightarrow> i = j"
    using is_running_is_bg by blast
  have qd: "quiescent s \<longrightarrow>
      executed s = appended s \<and> mset (executed s) + mset (failed s) = mset (requested s)"
    using quiescent_done(2,3) [OF inv] by simp
  have bd: "\<forall>is s'. run (map Step is) s = Some s' \<longrightarrow> length is \<le> weight s"
    using steps_bounded [of _ s] by fastforce
  from can_finish [OF inv] obtain js s' where
    r: "run (map Step js) s = Some s'" and qs: "quiescent s'" by blast
  have inv': "invariant s'" by (rule invariant_run [OF inv r])
  have "executed s' = appended s'" "mset (executed s') + mset (failed s) = mset (requested s)"
    using quiescent_done(2,3) [OF inv' qs] steps_keep_requests [OF r] by simp_all
  with r qs have fin: "\<exists>is s'. run (map Step is) s = Some s' \<and> quiescent s' \<and>
      executed s' = appended s' \<and> mset (executed s') + mset (failed s) = mset (requested s)"
    by blast
  have nf: "(\<forall>i. Refuse i \<notin> set as) \<longrightarrow> failed s = []"
    using failed_run [OF assms] by (simp add: init_def)
  from q h sub bg rn qd bd fin nf show ?thesis by blast
qed

theorem tasks_run_once_in_order_witness:
  "run ex_run (init 2) = Some ex_state \<and>
   requested ex_state = [(1, 10), (2, 20)] \<and> appended ex_state = [(2, 20), (1, 10)] \<and>
   executed ex_state = [(2, 20)] \<and> queue ex_state = [(1, 10)] \<and> failed ex_state = [] \<and>
   (\<exists>is s'. run (map Step is) ex_state = Some s' \<and> quiescent s' \<and>
      executed s' = appended s' \<and> mset (executed s') = {#(1, 10), (2, 20)#})"
proof -
  have r: "run ex_run (init 2) = Some ex_state"
    by (simp add: ex_run_def ex_state_def init_def step_def set_thread_def numeral_2_eq_2
        nth_append)
  have e: "requested ex_state = [(1, 10), (2, 20)]" "appended ex_state = [(2, 20), (1, 10)]"
    "executed ex_state = [(2, 20)]" "queue ex_state = [(1, 10)]"
    by (simp_all add: ex_state_def)
  have n: "\<forall>i. Refuse i \<notin> set ex_run"
    by (simp add: ex_run_def)
  note a = tasks_run_once_in_order [OF r]
  from a n have f: "failed ex_state = []" by blast
  from a obtain js s' where
    g: "run (map Step js) ex_state = Some s'" "quiescent s'" "executed s' = appended s'"
    and "mset (executed s') + mset (failed ex_state) = mset (requested ex_state)"
    by blast
  then have "mset (executed s') = {#(1, 10), (2, 20)#}"
    by (simp add: e(1) f)
  with g have "\<exists>is s'. run (map Step is) ex_state = Some s' \<and> quiescent s' \<and>
      executed s' = appended s' \<and> mset (executed s') = {#(1, 10), (2, 20)#}"
    by blast
  with r e f show ?thesis by blast
qed

text \<open>
  The sentence as the specification has it, that \<open>M\<close> tasks submitted give \<open>M\<close>
  executions, fails when the creation of the thread fails: in \<open>ex_drop\<close> two tasks are
  submitted, the first call is left by the exception, and in the end no thread can execute
  a statement and one task has been called.
\<close>

theorem submitted_task_dropped:
  "run ex_drop (init 1) = Some ex_dropped \<and> quiescent ex_dropped \<and>
   requested ex_dropped = [(1, 10), (2, 20)] \<and> executed ex_dropped = [(2, 20)] \<and>
   queue ex_dropped = [] \<and> length (executed ex_dropped) < length (requested ex_dropped)"
proof -
  have r: "run ex_drop (init 1) = Some ex_dropped"
    by (simp add: ex_drop_def ex_dropped_def init_def step_def set_thread_def nth_append)
  have "i < 2 \<Longrightarrow> step i ex_dropped = None" for i
    using less_2_cases [of i] by (auto simp: ex_dropped_def step_def)
  then have q: "quiescent ex_dropped"
    by (simp add: quiescent_def ex_dropped_def)
  from r q show ?thesis by (simp add: ex_dropped_def)
qed

text \<open>
  C2. In every reachable state: a thread has been created exactly when \<^verbatim>\<open>bgthread_\<close>
  is set, at most once, there are as many background threads as threads created, none
  before the first call of \<open>Schedule\<close> and one as soon as a task has been appended. A
  call of \<open>Schedule\<close> that is between taking and releasing the mutex (testing
  \<^verbatim>\<open>bgthread_\<close>, creating the thread, appending) owns the mutex. A call about to create
  the thread finds \<^verbatim>\<open>bgthread_\<close> empty; the creation succeeds, and then one thread has
  been created, or it fails, and then the call is left by the exception with the mutex
  released, \<^verbatim>\<open>bgthread_\<close> still empty, and nothing appended or signalled. The creation
  can only fail in a call from a thread of the engine while there is no background thread.
  The \<^verbatim>\<open>push_back\<close> appends the task at the tail of the queue. The
  \<^verbatim>\<open>notify_one\<close> is executed without the mutex, leaves no thread waiting on the
  condition variable, and returns from the call without a task having been called. A call
  that finds the mutex free returns after at most 6 statements of its own, with its task
  appended and signalled and no task called meanwhile, unless the creation of the thread
  fails, and then it is left by the exception after 2 statements; and the owner of the
  mutex can always execute its next statement.
\<close>

theorem Schedule_appends_creates_once_signals:
  assumes "run as (init k) = Some s"
  shows "spawned s = (if bgthread s = None then 0 else 1) \<and>
    length (filter is_bg (threads s)) = spawned s \<and>
    (requested s = [] \<longrightarrow> spawned s = 0) \<and>
    (appended s \<noteq> [] \<longrightarrow> spawned s = 1) \<and>
    (\<forall>i < length (threads s). \<forall>x t pc.
       threads s ! i = Thread x (Some (t, pc)) \<and> in_critical pc \<longrightarrow> mu s = Some i) \<and>
    (\<forall>i < length (threads s). \<forall>x t.
       threads s ! i = Thread x (Some (t, S_spawn)) \<longrightarrow>
       bgthread s = None \<and> (\<exists>s'. step i s = Some s' \<and> spawned s' = 1) \<and>
       (\<exists>s'. act (Refuse i) s = Some s' \<and> threads s' ! i = Thread x None \<and>
          mu s' = None \<and> bgthread s' = None \<and> spawned s' = 0 \<and> queue s' = queue s \<and>
          appended s' = appended s \<and> signalled s' = signalled s \<and>
          failed s' = failed s @ [t])) \<and>
    (\<forall>i s'. act (Refuse i) s = Some s' \<longrightarrow>
       bgthread s = None \<and> (\<exists>t. threads s ! i = Thread Engine (Some (t, S_spawn)))) \<and>
    (\<forall>i < length (threads s). \<forall>x t.
       threads s ! i = Thread x (Some (t, S_push)) \<longrightarrow>
       (\<exists>s'. step i s = Some s' \<and> queue s' = queue s @ [t] \<and> mu s' = Some i)) \<and>
    (\<forall>i < length (threads s). \<forall>x t.
       threads s ! i = Thread x (Some (t, S_notify)) \<longrightarrow>
       mu s \<noteq> Some i \<and>
       (\<exists>s'. step i s = Some s' \<and> threads s' ! i = Thread x None \<and>
          signalled s' = signalled s @ [t] \<and> executed s' = executed s \<and>
          (\<forall>w < length (threads s'). threads s' ! w \<noteq> Worker B_wait))) \<and>
    (\<forall>i < length (threads s). \<forall>x t.
       threads s ! i = Thread x (Some (t, S_lock)) \<and> mu s = None \<longrightarrow>
       (\<exists>n \<le> 6. \<exists>s'. run (replicate n (Step i)) s = Some s' \<and>
          threads s' ! i = Thread x None \<and> appended s' = appended s @ [t] \<and>
          queue s' = queue s @ [t] \<and> executed s' = executed s \<and>
          signalled s' = signalled s @ [t] \<and> mu s' = None)) \<and>
    (\<forall>i < length (threads s). \<forall>x t.
       threads s ! i = Thread x (Some (t, S_lock)) \<and> mu s = None \<and> bgthread s = None \<longrightarrow>
       (\<exists>s'. run [Step i, Step i, Refuse i] s = Some s' \<and>
          threads s' ! i = Thread x None \<and> appended s' = appended s \<and> queue s' = queue s \<and>
          executed s' = executed s \<and> signalled s' = signalled s \<and>
          failed s' = failed s @ [t] \<and> mu s' = None \<and> bgthread s' = None \<and>
          spawned s' = spawned s)) \<and>
    (\<forall>j. mu s = Some j \<longrightarrow> step j s \<noteq> None)"
proof -
  note inv = reachable_invariant [OF assms]
  from inv have iw: "inv_worker s" and im: "inv_mutex s" and isc: "inv_sched s"
    and iq: "inv_queue s"
    by (simp_all add: invariant_def)
  have c1: "spawned s = (if bgthread s = None then 0 else 1)"
    using iw by (simp add: inv_worker_def)
  have c2: "length (filter is_bg (threads s)) = spawned s"
    by (rule background_threads [OF inv])
  have "bgthread s \<noteq> None \<longrightarrow> requested s \<noteq> []"
    by (rule lazy_run [OF invariant_init _ assms]) (simp add: init_def)
  with c1 have c3: "requested s = [] \<longrightarrow> spawned s = 0" by auto
  have c4: "appended s \<noteq> [] \<longrightarrow> spawned s = 1"
    using iq c1 by (auto simp: inv_queue_def)
  have c5: "\<forall>i < length (threads s). \<forall>x t pc.
       threads s ! i = Thread x (Some (t, pc)) \<and> in_critical pc \<longrightarrow> mu s = Some i"
    using im by (auto simp: inv_mutex_def)
  have c6: "\<forall>i < length (threads s). \<forall>x t.
       threads s ! i = Thread x (Some (t, S_spawn)) \<longrightarrow>
       bgthread s = None \<and> (\<exists>s'. step i s = Some s' \<and> spawned s' = 1) \<and>
       (\<exists>s'. act (Refuse i) s = Some s' \<and> threads s' ! i = Thread x None \<and>
          mu s' = None \<and> bgthread s' = None \<and> spawned s' = 0 \<and> queue s' = queue s \<and>
          appended s' = appended s \<and> signalled s' = signalled s \<and>
          failed s' = failed s @ [t])"
  proof (intro allI impI)
    fix i x t
    assume i: "i < length (threads s)" and th: "threads s ! i = Thread x (Some (t, S_spawn))"
    with isc have n: "bgthread s = None" by (auto simp: inv_sched_def)
    with c1 have "spawned s = 0" by simp
    with i th n show "bgthread s = None \<and> (\<exists>s'. step i s = Some s' \<and> spawned s' = 1) \<and>
       (\<exists>s'. act (Refuse i) s = Some s' \<and> threads s' ! i = Thread x None \<and>
          mu s' = None \<and> bgthread s' = None \<and> spawned s' = 0 \<and> queue s' = queue s \<and>
          appended s' = appended s \<and> signalled s' = signalled s \<and>
          failed s' = failed s @ [t])"
      by (simp add: step_def)
  qed
  have c6b: "\<forall>i s'. act (Refuse i) s = Some s' \<longrightarrow>
       bgthread s = None \<and> (\<exists>t. threads s ! i = Thread Engine (Some (t, S_spawn)))"
    using Refuse_only_creating [OF inv] by blast
  have c7: "\<forall>i < length (threads s). \<forall>x t.
       threads s ! i = Thread x (Some (t, S_push)) \<longrightarrow>
       (\<exists>s'. step i s = Some s' \<and> queue s' = queue s @ [t] \<and> mu s' = Some i)"
  proof (intro allI impI)
    fix i x t
    assume i: "i < length (threads s)" and th: "threads s ! i = Thread x (Some (t, S_push))"
    with c5 have "mu s = Some i" by auto
    with i th show "\<exists>s'. step i s = Some s' \<and> queue s' = queue s @ [t] \<and> mu s' = Some i"
      by (simp add: step_def)
  qed
  have c8: "\<forall>i < length (threads s). \<forall>x t.
       threads s ! i = Thread x (Some (t, S_notify)) \<longrightarrow>
       mu s \<noteq> Some i \<and>
       (\<exists>s'. step i s = Some s' \<and> threads s' ! i = Thread x None \<and>
          signalled s' = signalled s @ [t] \<and> executed s' = executed s \<and>
          (\<forall>w < length (threads s'). threads s' ! w \<noteq> Worker B_wait))"
  proof (intro allI impI)
    fix i x t
    assume i: "i < length (threads s)" and th: "threads s ! i = Thread x (Some (t, S_notify))"
    with im have m: "mu s \<noteq> Some i" by (auto simp: inv_mutex_def)
    from i th notify_wakes [OF inv i th] m
    show "mu s \<noteq> Some i \<and>
       (\<exists>s'. step i s = Some s' \<and> threads s' ! i = Thread x None \<and>
          signalled s' = signalled s @ [t] \<and> executed s' = executed s \<and>
          (\<forall>w < length (threads s'). threads s' ! w \<noteq> Worker B_wait))"
      by (simp add: step_def)
  qed
  have c9: "\<forall>i < length (threads s). \<forall>x t.
       threads s ! i = Thread x (Some (t, S_lock)) \<and> mu s = None \<longrightarrow>
       (\<exists>n \<le> 6. \<exists>s'. run (replicate n (Step i)) s = Some s' \<and>
          threads s' ! i = Thread x None \<and> appended s' = appended s @ [t] \<and>
          queue s' = queue s @ [t] \<and> executed s' = executed s \<and>
          signalled s' = signalled s @ [t] \<and> mu s' = None)"
    using Schedule_alone [of _ s] by blast
  have c9b: "\<forall>i < length (threads s). \<forall>x t.
       threads s ! i = Thread x (Some (t, S_lock)) \<and> mu s = None \<and> bgthread s = None \<longrightarrow>
       (\<exists>s'. run [Step i, Step i, Refuse i] s = Some s' \<and>
          threads s' ! i = Thread x None \<and> appended s' = appended s \<and> queue s' = queue s \<and>
          executed s' = executed s \<and> signalled s' = signalled s \<and>
          failed s' = failed s @ [t] \<and> mu s' = None \<and> bgthread s' = None \<and>
          spawned s' = spawned s)"
    using Schedule_alone_refused [of _ s] by blast
  have c10: "\<forall>j. mu s = Some j \<longrightarrow> step j s \<noteq> None"
    using holder_can_step [OF inv] by blast
  show ?thesis
    using c1 c2 c3 c4 c5 c6 c6b c7 c8 c9 c9b c10 by (intro conjI)
qed

theorem Schedule_appends_creates_once_signals_witness:
  "run ex_first (init 1) = Some ex_creating \<and>
   threads ex_creating ! 0 = Thread Engine (Some ((1, 10), S_spawn)) \<and>
   mu ex_creating = Some 0 \<and> bgthread ex_creating = None \<and> spawned ex_creating = 0 \<and>
   length (filter is_bg (threads ex_creating)) = 0 \<and>
   (\<exists>s'. step 0 ex_creating = Some s' \<and> spawned s' = 1) \<and>
   (\<exists>s'. act (Refuse 0) ex_creating = Some s' \<and> threads s' ! 0 = Thread Engine None \<and>
      mu s' = None \<and> appended s' = [] \<and> failed s' = [(1, 10)])"
proof -
  have r: "run ex_first (init 1) = Some ex_creating"
    by (simp add: ex_first_def ex_creating_def init_def step_def set_thread_def)
  have l: "0 < length (threads ex_creating)"
    and th: "threads ex_creating ! 0 = Thread Engine (Some ((1, 10), S_spawn))"
    and cr: "in_critical S_spawn"
    and e: "appended ex_creating = []" "failed ex_creating = []"
    by (simp_all add: ex_creating_def)
  note a = Schedule_appends_creates_once_signals [OF r]
  from a have sp: "spawned ex_creating = (if bgthread ex_creating = None then 0 else 1)"
    and bg: "length (filter is_bg (threads ex_creating)) = spawned ex_creating"
    by blast+
  note cs = a [THEN conjunct2, THEN conjunct2, THEN conjunct2, THEN conjunct2, THEN conjunct1]
  note sw = a [THEN conjunct2, THEN conjunct2, THEN conjunct2, THEN conjunct2, THEN conjunct2,
    THEN conjunct1]
  from cs l th cr have m: "mu ex_creating = Some 0" by blast
  note c = sw [rule_format, OF l th]
  then have d: "\<exists>s'. act (Refuse 0) ex_creating = Some s' \<and>
      threads s' ! 0 = Thread Engine None \<and> mu s' = None \<and> appended s' = [] \<and>
      failed s' = [(1, 10)]"
    using e by auto
  from c sp have z: "spawned ex_creating = 0" by simp
  from c have n: "bgthread ex_creating = None"
    and st: "\<exists>s'. step 0 ex_creating = Some s' \<and> spawned s' = 1"
    by simp_all
  from r th m n z bg st d show ?thesis by simp
qed

text \<open>
  The sentence as the specification has it, that \<open>Schedule\<close> appends the task, signals
  and returns, fails when the creation of the thread fails: in \<open>ex_refuse\<close> the only call
  is left by the exception, and its task is neither appended nor signalled, while no
  thread has been created.
\<close>

theorem Schedule_leaves_by_exception:
  "run ex_refuse (init 1) = Some ex_refused \<and>
   requested ex_refused = [(1, 10)] \<and> threads ex_refused = [Thread Engine None] \<and>
   appended ex_refused = [] \<and> queue ex_refused = [] \<and> signalled ex_refused = [] \<and>
   failed ex_refused = [(1, 10)] \<and> spawned ex_refused = 0 \<and> mu ex_refused = None"
proof -
  have "run ex_refuse (init 1) = Some ex_refused"
    by (simp add: ex_refuse_def ex_refused_def init_def step_def set_thread_def)
  then show ?thesis by (simp add: ex_refused_def)
qed

end
